theory Spec2Isabelle
  imports Main
begin

section \<open>Data model of crossword\_game.py\<close>

text \<open>
  The grid is a Python list of lists whose cells are \<open>None\<close> or a one-letter string.
  Rows and columns are Python ints, a direction is the int 0 (horizontal) or 1
  (vertical). A \<open>WordEntry\<close> stores its word already upper-cased by the constructor.
\<close>

datatype error = IndexError

type_synonym cell = "char option"
type_synonym grid = "cell list list"

record WordEntry =
  word :: string
  clue :: string

record PlacedWord =
  entry :: WordEntry
  row :: int
  col :: int
  direction :: int

subsection \<open>Python list indexing\<close>

text \<open>
  \<open>xs[i]\<close> accepts \<open>-len(xs) <= i < len(xs)\<close>, a negative index counting from the
  end; every other index raises IndexError.
\<close>

definition norm_index :: "nat \<Rightarrow> int \<Rightarrow> nat option" where
  "norm_index n i =
     (if 0 \<le> i \<and> i < int n then Some (nat i)
      else if - int n \<le> i \<and> i < 0 then Some (nat (i + int n))
      else None)"

definition list_item :: "'a list \<Rightarrow> int \<Rightarrow> error + 'a" where
  "list_item xs i =
     (case norm_index (length xs) i of None \<Rightarrow> Inl IndexError | Some k \<Rightarrow> Inr (xs ! k))"

text \<open>\<open>grid[r][c]\<close>\<close>

definition cell_at :: "grid \<Rightarrow> int \<Rightarrow> int \<Rightarrow> error + cell" where
  "cell_at grid r c =
     (case list_item grid r of Inl e \<Rightarrow> Inl e | Inr line \<Rightarrow> list_item line c)"

text \<open>\<open>grid[r][c] is not None\<close>\<close>

definition occupied :: "grid \<Rightarrow> int \<Rightarrow> int \<Rightarrow> error + bool" where
  "occupied grid r c =
     (case cell_at grid r c of Inl e \<Rightarrow> Inl e | Inr x \<Rightarrow> Inr (x \<noteq> None))"

text \<open>\<open>grid[r][c] = ch\<close>\<close>

definition set_cell :: "grid \<Rightarrow> int \<Rightarrow> int \<Rightarrow> char \<Rightarrow> error + grid" where
  "set_cell grid r c ch =
     (case norm_index (length grid) r of
        None \<Rightarrow> Inl IndexError
      | Some rn \<Rightarrow>
          (case norm_index (length (grid ! rn)) c of
             None \<Rightarrow> Inl IndexError
           | Some cn \<Rightarrow> Inr (grid[rn := (grid ! rn)[cn := Some ch]])))"

subsection \<open>initialise\_grid\<close>

text \<open>\<open>range(size)\<close> is empty for \<open>size <= 0\<close>, which \<open>nat\<close> reproduces.\<close>

definition initialise_grid :: "int \<Rightarrow> grid" where
  "initialise_grid sz = replicate (nat sz) (replicate (nat sz) None)"

subsection \<open>can\_place\<close>

text \<open>
  The perpendicular test made for an empty target cell (source lines 107-122): the
  result is True when the loop body would \<open>return False\<close>.
\<close>

definition side_blocked :: "int \<Rightarrow> int \<Rightarrow> int \<Rightarrow> grid \<Rightarrow> error + bool" where
  "side_blocked dir r c grid =
     (let sz = int (length grid) in
      if dir = 0 then
        (case (if r > 0 then occupied grid (r - 1) c else Inr False) of
           Inl e \<Rightarrow> Inl e
         | Inr True \<Rightarrow> Inr True
         | Inr False \<Rightarrow> (if r < sz - 1 then occupied grid (r + 1) c else Inr False))
      else
        (case (if c > 0 then occupied grid r (c - 1) else Inr False) of
           Inl e \<Rightarrow> Inl e
         | Inr True \<Rightarrow> Inr True
         | Inr False \<Rightarrow> (if c < sz - 1 then occupied grid r (c + 1) else Inr False)))"

text \<open>
  The \<open>for i, ch in enumerate(word)\<close> loop (lines 95-122), on the letters still to
  visit and their index \<open>i\<close>. \<open>Inr False\<close> is the loop's \<open>return False\<close>, \<open>Inr True\<close>
  is falling out of the loop.
\<close>

fun can_place_loop :: "string \<Rightarrow> int \<Rightarrow> int \<Rightarrow> int \<Rightarrow> int \<Rightarrow> grid \<Rightarrow> error + bool" where
  "can_place_loop [] i rw cl dir grid = Inr True"
| "can_place_loop (ch # rest) i rw cl dir grid =
     (let sz = int (length grid);
          r = rw + (if dir = 1 then i else 0);
          c = cl + (if dir = 0 then i else 0)
      in if r < 0 \<or> r \<ge> sz \<or> c < 0 \<or> c \<ge> sz then Inr False
         else
           (case cell_at grid r c of
              Inl e \<Rightarrow> Inl e
            | Inr existing \<Rightarrow>
                if existing \<noteq> None \<and> existing \<noteq> Some ch then Inr False
                else
                  (case (if existing = None then side_blocked dir r c grid
                         else Inr False) of
                     Inl e \<Rightarrow> Inl e
                   | Inr True \<Rightarrow> Inr False
                   | Inr False \<Rightarrow> can_place_loop rest (i + 1) rw cl dir grid)))"

text \<open>The test of the two cells at the ends of the word (lines 124-139).\<close>

definition ends_blocked :: "string \<Rightarrow> int \<Rightarrow> int \<Rightarrow> int \<Rightarrow> grid \<Rightarrow> error + bool" where
  "ends_blocked wd rw cl dir grid =
     (let sz = int (length grid) in
      if dir = 0 then
        (case (if cl > 0 then occupied grid rw (cl - 1) else Inr False) of
           Inl e \<Rightarrow> Inl e
         | Inr True \<Rightarrow> Inr True
         | Inr False \<Rightarrow>
             (let end_c = cl + int (length wd) in
              if end_c < sz then occupied grid rw end_c else Inr False))
      else
        (case (if rw > 0 then occupied grid (rw - 1) cl else Inr False) of
           Inl e \<Rightarrow> Inl e
         | Inr True \<Rightarrow> Inr True
         | Inr False \<Rightarrow>
             (let end_r = rw + int (length wd) in
              if end_r < sz then occupied grid end_r cl else Inr False)))"

definition can_place :: "string \<Rightarrow> int \<Rightarrow> int \<Rightarrow> int \<Rightarrow> grid \<Rightarrow> error + bool" where
  "can_place wd rw cl dir grid =
     (case can_place_loop wd 0 rw cl dir grid of
        Inl e \<Rightarrow> Inl e
      | Inr False \<Rightarrow> Inr False
      | Inr True \<Rightarrow>
          (case ends_blocked wd rw cl dir grid of
             Inl e \<Rightarrow> Inl e
           | Inr blocked \<Rightarrow> Inr (\<not> blocked)))"

subsection \<open>place\_word\<close>

text \<open>
  The grid is mutated in place; the model returns the new grid. An IndexError leaves
  the function (and its callers) at once.
\<close>

fun place_word_loop :: "string \<Rightarrow> int \<Rightarrow> int \<Rightarrow> int \<Rightarrow> int \<Rightarrow> grid \<Rightarrow> error + grid" where
  "place_word_loop [] i rw cl dir grid = Inr grid"
| "place_word_loop (ch # rest) i rw cl dir grid =
     (let r = rw + (if dir = 1 then i else 0);
          c = cl + (if dir = 0 then i else 0)
      in case set_cell grid r c ch of
           Inl e \<Rightarrow> Inl e
         | Inr grid' \<Rightarrow> place_word_loop rest (i + 1) rw cl dir grid')"

definition place_word :: "string \<Rightarrow> int \<Rightarrow> int \<Rightarrow> int \<Rightarrow> grid \<Rightarrow> error + grid" where
  "place_word wd rw cl dir grid = place_word_loop wd 0 rw cl dir grid"

subsection \<open>try\_place\_word\<close>

text \<open>
  Three nested \<open>for\<close> statements with a \<open>return\<close> inside. Each one is a function on the items
  still to visit and their index; the result \<open>(Some p, grid')\<close> is the
  \<open>return PlacedWord(...)\<close> with the grid as \<open>place_word\<close> left it, \<open>(None, grid)\<close>
  is falling out of the loop.

  The innermost loop, \<open>for j, ch in enumerate(word)\<close> (lines 170-185):
\<close>

fun cross_letters ::
  "WordEntry \<Rightarrow> PlacedWord \<Rightarrow> int \<Rightarrow> char \<Rightarrow> string \<Rightarrow> int \<Rightarrow> grid
     \<Rightarrow> error + (PlacedWord option \<times> grid)" where
  "cross_letters e placed_word i pw_ch [] j grid = Inr (None, grid)"
| "cross_letters e placed_word i pw_ch (ch # rest) j grid =
     (if pw_ch \<noteq> ch then cross_letters e placed_word i pw_ch rest (j + 1) grid
      else
        (let rw = (if direction placed_word = 0 then row placed_word - j
                   else row placed_word + i);
             cl = (if direction placed_word = 0 then col placed_word + i
                   else col placed_word - j);
             dir = (if direction placed_word = 0 then 1 else 0)
         in case can_place (word e) rw cl dir grid of
              Inl err \<Rightarrow> Inl err
            | Inr True \<Rightarrow>
                (case place_word (word e) rw cl dir grid of
                   Inl err \<Rightarrow> Inl err
                 | Inr grid' \<Rightarrow>
                     Inr (Some \<lparr>entry = e, row = rw, col = cl, direction = dir\<rparr>, grid'))
            | Inr False \<Rightarrow> cross_letters e placed_word i pw_ch rest (j + 1) grid))"

text \<open>The middle loop, \<open>for i, pw_ch in enumerate(pw)\<close> (line 169):\<close>

fun cross_placed ::
  "WordEntry \<Rightarrow> PlacedWord \<Rightarrow> string \<Rightarrow> int \<Rightarrow> grid \<Rightarrow> error + (PlacedWord option \<times> grid)" where
  "cross_placed e placed_word [] i grid = Inr (None, grid)"
| "cross_placed e placed_word (pw_ch # rest) i grid =
     (case cross_letters e placed_word i pw_ch (word e) 0 grid of
        Inl err \<Rightarrow> Inl err
      | Inr (Some p, grid') \<Rightarrow> Inr (Some p, grid')
      | Inr (None, grid') \<Rightarrow> cross_placed e placed_word rest (i + 1) grid')"

text \<open>The outer loop, \<open>for placed_word in placed\<close> (line 167):\<close>

fun try_place_word ::
  "WordEntry \<Rightarrow> PlacedWord list \<Rightarrow> grid \<Rightarrow> error + (PlacedWord option \<times> grid)" where
  "try_place_word e [] grid = Inr (None, grid)"
| "try_place_word e (placed_word # placed) grid =
     (case cross_placed e placed_word (word (entry placed_word)) 0 grid of
        Inl err \<Rightarrow> Inl err
      | Inr (Some p, grid') \<Rightarrow> Inr (Some p, grid')
      | Inr (None, grid') \<Rightarrow> try_place_word e placed grid')"

subsection \<open>generate\_crossword\<close>

text \<open>
  \<open>random.shuffle\<close> is the only source of nondeterminism: the shuffled list is a
  parameter, so every statement below holds for every outcome of the shuffle.
  \<open>entries[:max_words]\<close> is a Python slice: a negative bound counts from the end and
  is clipped at 0.
\<close>

definition select_words :: "WordEntry list \<Rightarrow> int \<Rightarrow> WordEntry list" where
  "select_words shuffled max_words =
     (if max_words \<ge> 0 then take (nat max_words) shuffled
      else take (nat (int (length shuffled) + max_words)) shuffled)"

text \<open>
  \<open>selected.sort(key=lambda e: len(e.word), reverse=True)\<close>: Python's sort is stable
  also with \<open>reverse=True\<close>, so it is the stable ascending sort on the negated key.
\<close>

definition sort_by_length :: "WordEntry list \<Rightarrow> WordEntry list" where
  "sort_by_length selected = sort_key (\<lambda>e. - int (length (word e))) selected"

text \<open>The seed placement (lines 212-218), on the popped first entry.\<close>

definition place_first :: "WordEntry \<Rightarrow> int \<Rightarrow> grid \<Rightarrow> error + (grid \<times> PlacedWord list)" where
  "place_first first sz grid =
     (let word_len = int (length (word first));
          rw = sz div 2;
          cl = max 0 ((sz - word_len) div 2)
      in case can_place (word first) rw cl 0 grid of
           Inl err \<Rightarrow> Inl err
         | Inr True \<Rightarrow>
             (case place_word (word first) rw cl 0 grid of
                Inl err \<Rightarrow> Inl err
              | Inr grid' \<Rightarrow>
                  Inr (grid', [\<lparr>entry = first, row = rw, col = cl, direction = 0\<rparr>]))
         | Inr False \<Rightarrow> Inr (grid, []))"

text \<open>
  The loop \<open>for entry in selected\<close> (lines 220-224). A PlacedWord object is always
  truthy, so \<open>if pw\<close> tests for \<open>None\<close>.
\<close>

fun place_remaining ::
  "WordEntry list \<Rightarrow> PlacedWord list \<Rightarrow> grid \<Rightarrow> error + (grid \<times> PlacedWord list)" where
  "place_remaining [] placed_words grid = Inr (grid, placed_words)"
| "place_remaining (e # rest) placed_words grid =
     (case try_place_word e placed_words grid of
        Inl err \<Rightarrow> Inl err
      | Inr (Some pw, grid') \<Rightarrow> place_remaining rest (placed_words @ [pw]) grid'
      | Inr (None, grid') \<Rightarrow> place_remaining rest placed_words grid')"

text \<open>Lines 207-225, from the sorted list on.\<close>

definition generate_sorted :: "WordEntry list \<Rightarrow> int \<Rightarrow> error + (grid \<times> PlacedWord list)" where
  "generate_sorted selected sz =
     (case selected of
        [] \<Rightarrow> place_remaining [] [] (initialise_grid sz)
      | first # rest \<Rightarrow>
          (case place_first first sz (initialise_grid sz) of
             Inl err \<Rightarrow> Inl err
           | Inr (grid', placed_words) \<Rightarrow> place_remaining rest placed_words grid'))"

definition generate_crossword ::
  "WordEntry list \<Rightarrow> int \<Rightarrow> int \<Rightarrow> error + (grid \<times> PlacedWord list)" where
  "generate_crossword shuffled sz max_words =
     generate_sorted (sort_by_length (select_words shuffled max_words)) sz"

text \<open>
  The state of the run when the crossing loop has made its first \<open>k\<close> iterations
  (\<open>k = 0\<close>: just after the seed placement).
\<close>

definition state_after :: "WordEntry list \<Rightarrow> int \<Rightarrow> nat \<Rightarrow> error + (grid \<times> PlacedWord list)" where
  "state_after selected sz k =
     (case selected of
        [] \<Rightarrow> Inr (initialise_grid sz, [])
      | first # rest \<Rightarrow>
          (case place_first first sz (initialise_grid sz) of
             Inl err \<Rightarrow> Inl err
           | Inr (grid', placed_words) \<Rightarrow> place_remaining (take k rest) placed_words grid'))"

subsection \<open>number\_grid\<close>

text \<open>
  The dictionary \<open>placed_lookup\<close> (lines 249-255) is built and never read, and
  building it raises nothing; it is left out. The numbering state is the counter
  \<open>num\<close> and the three dictionaries \<open>numbers\<close>, \<open>across\<close>, \<open>down\<close>.
\<close>

type_synonym numbering =
  "int \<times> (int \<rightharpoonup> int \<times> int) \<times> (int \<rightharpoonup> string) \<times> (int \<rightharpoonup> string)"

text \<open>Lines 266-269 and 271-273.\<close>

definition start_across :: "grid \<Rightarrow> int \<Rightarrow> int \<Rightarrow> error + bool" where
  "start_across grid r c =
     (case (if c = 0 then Inr True
            else (case cell_at grid r (c - 1) of Inl e \<Rightarrow> Inl e | Inr x \<Rightarrow> Inr (x = None))) of
        Inl e \<Rightarrow> Inl e
      | Inr False \<Rightarrow> Inr False
      | Inr True \<Rightarrow>
          (if c + 1 < int (length grid) then occupied grid r (c + 1) else Inr False))"

definition start_down :: "grid \<Rightarrow> int \<Rightarrow> int \<Rightarrow> error + bool" where
  "start_down grid r c =
     (case (if r = 0 then Inr True
            else (case cell_at grid (r - 1) c of Inl e \<Rightarrow> Inl e | Inr x \<Rightarrow> Inr (x = None))) of
        Inl e \<Rightarrow> Inl e
      | Inr False \<Rightarrow> Inr False
      | Inr True \<Rightarrow>
          (if r + 1 < int (length grid) then occupied grid (r + 1) c else Inr False))"

text \<open>
  The scans \<open>for pw in placed_words: if ...: across[num] = pw.entry.clue; break\<close>
  (lines 279-282 with \<open>dir = 0\<close>, lines 284-287 with \<open>dir = 1\<close>).
\<close>

fun bind_clue ::
  "int \<Rightarrow> int \<Rightarrow> int \<Rightarrow> int \<Rightarrow> PlacedWord list \<Rightarrow> (int \<rightharpoonup> string) \<Rightarrow> (int \<rightharpoonup> string)" where
  "bind_clue dir r c n [] m = m"
| "bind_clue dir r c n (pw # rest) m =
     (if direction pw = dir \<and> row pw = r \<and> col pw = c then m(n \<mapsto> clue (entry pw))
      else bind_clue dir r c n rest m)"

text \<open>The body of the double loop (lines 259-288) at cell (r, c).\<close>

fun number_cell :: "grid \<Rightarrow> PlacedWord list \<Rightarrow> int \<times> int \<Rightarrow> numbering \<Rightarrow> error + numbering" where
  "number_cell grid placed_words (r, c) (n, numbers, across, down) =
     (case cell_at grid r c of
        Inl e \<Rightarrow> Inl e
      | Inr None \<Rightarrow> Inr (n, numbers, across, down)
      | Inr (Some ch) \<Rightarrow>
          (case start_across grid r c of
             Inl e \<Rightarrow> Inl e
           | Inr sa \<Rightarrow>
               (case start_down grid r c of
                  Inl e \<Rightarrow> Inl e
                | Inr sd \<Rightarrow>
                    if sa \<or> sd
                    then Inr (n + 1, numbers(n \<mapsto> (r, c)),
                              (if sa then bind_clue 0 r c n placed_words across else across),
                              (if sd then bind_clue 1 r c n placed_words down else down))
                    else Inr (n, numbers, across, down))))"

fun number_cells ::
  "grid \<Rightarrow> PlacedWord list \<Rightarrow> (int \<times> int) list \<Rightarrow> numbering \<Rightarrow> error + numbering" where
  "number_cells grid placed_words [] st = Inr st"
| "number_cells grid placed_words (p # ps) st =
     (case number_cell grid placed_words p st of
        Inl e \<Rightarrow> Inl e
      | Inr st' \<Rightarrow> number_cells grid placed_words ps st')"

text \<open>
  \<open>for r in range(size): for c in range(size)\<close> visits the cells in row-major
  order.
\<close>

definition scan_order :: "grid \<Rightarrow> (int \<times> int) list" where
  "scan_order grid =
     List.product (map int [0..<length grid]) (map int [0..<length grid])"

definition number_state :: "grid \<Rightarrow> PlacedWord list \<Rightarrow> error + numbering" where
  "number_state grid placed_words =
     number_cells grid placed_words (scan_order grid) (1, Map.empty, Map.empty, Map.empty)"

definition number_grid ::
  "grid \<Rightarrow> PlacedWord list
     \<Rightarrow> error + ((int \<rightharpoonup> int \<times> int) \<times> (int \<rightharpoonup> string) \<times> (int \<rightharpoonup> string))" where
  "number_grid grid placed_words =
     (case number_state grid placed_words of
        Inl e \<Rightarrow> Inl e
      | Inr (n, numbers, across, down) \<Rightarrow> Inr (numbers, across, down))"

section \<open>The grid as a square of cells\<close>

text \<open>
  A grid of size N has N rows of N cells, as \<open>initialise_grid\<close> builds it. A cell
  (r, c) is on the grid when both coordinates lie in [0, N).
\<close>

definition square :: "grid \<Rightarrow> bool" where
  "square grid = (\<forall>line \<in> set grid. length line = length grid)"

definition on_grid :: "grid \<Rightarrow> int \<Rightarrow> int \<Rightarrow> bool" where
  "on_grid grid r c = (0 \<le> r \<and> r < int (length grid) \<and> 0 \<le> c \<and> c < int (length grid))"

text \<open>The content of an on-grid cell; an off-grid cell holds nothing.\<close>

definition letter_at :: "grid \<Rightarrow> int \<Rightarrow> int \<Rightarrow> cell" where
  "letter_at grid r c = (if on_grid grid r c then grid ! nat r ! nat c else None)"

text \<open>The target cell of letter index \<open>i\<close> (specification, section 4.2).\<close>

definition target_cell :: "int \<Rightarrow> int \<Rightarrow> int \<Rightarrow> nat \<Rightarrow> int \<times> int" where
  "target_cell rw cl dir i = (if dir = 1 then (rw + int i, cl) else (rw, cl + int i))"

text \<open>
  The four conditions of the specification of \<open>can_place\<close>, each written from its
  sentence: bounds, no conflicting letter, clear perpendicular sides of the empty
  target cells, clear cells before the start and after the end.
\<close>

definition within_bounds :: "string \<Rightarrow> int \<Rightarrow> int \<Rightarrow> int \<Rightarrow> grid \<Rightarrow> bool" where
  "within_bounds wd rw cl dir grid =
     (\<forall>i \<in> set [0..<length wd].
        on_grid grid (fst (target_cell rw cl dir i)) (snd (target_cell rw cl dir i)))"

definition no_conflict :: "string \<Rightarrow> int \<Rightarrow> int \<Rightarrow> int \<Rightarrow> grid \<Rightarrow> bool" where
  "no_conflict wd rw cl dir grid =
     (\<forall>i \<in> set [0..<length wd].
        letter_at grid (fst (target_cell rw cl dir i)) (snd (target_cell rw cl dir i))
          \<in> {None, Some (wd ! i)})"

definition sides_clear :: "string \<Rightarrow> int \<Rightarrow> int \<Rightarrow> int \<Rightarrow> grid \<Rightarrow> bool" where
  "sides_clear wd rw cl dir grid =
     (\<forall>i \<in> set [0..<length wd].
        let r = fst (target_cell rw cl dir i); c = snd (target_cell rw cl dir i)
        in letter_at grid r c = None \<longrightarrow>
           (if dir = 0
            then letter_at grid (r - 1) c = None \<and> letter_at grid (r + 1) c = None
            else letter_at grid r (c - 1) = None \<and> letter_at grid r (c + 1) = None))"

definition ends_clear :: "string \<Rightarrow> int \<Rightarrow> int \<Rightarrow> int \<Rightarrow> grid \<Rightarrow> bool" where
  "ends_clear wd rw cl dir grid =
     (if dir = 0
      then letter_at grid rw (cl - 1) = None \<and> letter_at grid rw (cl + int (length wd)) = None
      else letter_at grid (rw - 1) cl = None \<and> letter_at grid (rw + int (length wd)) cl = None)"

definition can_place_spec :: "string \<Rightarrow> int \<Rightarrow> int \<Rightarrow> int \<Rightarrow> grid \<Rightarrow> bool" where
  "can_place_spec wd rw cl dir grid =
     (within_bounds wd rw cl dir grid \<and> no_conflict wd rw cl dir grid \<and>
      sides_clear wd rw cl dir grid \<and> ends_clear wd rw cl dir grid)"

text \<open>What one iteration of the loop of \<open>can_place\<close> tests at the target cell (r, c).\<close>

definition fits :: "grid \<Rightarrow> int \<Rightarrow> int \<Rightarrow> int \<Rightarrow> char \<Rightarrow> bool" where
  "fits grid dir r c ch =
     (on_grid grid r c \<and> letter_at grid r c \<in> {None, Some ch} \<and>
      (letter_at grid r c = None \<longrightarrow>
         (if dir = 0
          then letter_at grid (r - 1) c = None \<and> letter_at grid (r + 1) c = None
          else letter_at grid r (c - 1) = None \<and> letter_at grid r (c + 1) = None)))"

text \<open>Reading \<open>n\<close> cells from (rw, cl) along a direction, with \<open>grid[r][c]\<close>.\<close>

definition read_word :: "grid \<Rightarrow> int \<Rightarrow> int \<Rightarrow> int \<Rightarrow> nat \<Rightarrow> (error + cell) list" where
  "read_word grid rw cl dir n =
     map (\<lambda>i. cell_at grid (rw + (if dir = 1 then int i else 0))
                           (cl + (if dir = 0 then int i else 0))) [0..<n]"

text \<open>
  The two outcomes of a placement attempt on \<open>grid\<close>: nothing placed and the grid
  untouched, or a word placed where \<open>can_place\<close> returned True on \<open>grid\<close> and the grid
  exactly as \<open>place_word\<close> leaves it from \<open>grid\<close>.
\<close>

definition written_or_untouched ::
  "WordEntry \<Rightarrow> grid \<Rightarrow> error + (PlacedWord option \<times> grid) \<Rightarrow> bool" where
  "written_or_untouched e grid res =
     (case res of
        Inl err \<Rightarrow> False
      | Inr (None, grid') \<Rightarrow> grid' = grid
      | Inr (Some p, grid') \<Rightarrow>
          p = \<lparr>entry = e, row = row p, col = col p, direction = direction p\<rparr> \<and>
          (direction p = 0 \<or> direction p = 1) \<and>
          can_place (word e) (row p) (col p) (direction p) grid = Inr True \<and>
          place_word (word e) (row p) (col p) (direction p) grid = Inr grid')"

subsection \<open>The crossing search as the specification words it\<close>

text \<open>
  Specification, section 4.4: the placement that crosses letter \<open>j\<close> of the candidate
  with letter \<open>i\<close> of a placed word is (row, column, direction), in the opposite
  direction of the placed word. A placed word is horizontal (0) or vertical (1).
\<close>

definition crossing_of :: "PlacedWord \<Rightarrow> nat \<Rightarrow> nat \<Rightarrow> (int \<times> int \<times> int) list" where
  "crossing_of pw i j =
     (if direction pw = 0 then [(row pw - int j, col pw + int i, 1)]
      else if direction pw = 1 then [(row pw + int i, col pw - int j, 0)]
      else [])"

text \<open>
  All crossings of a candidate word, in the order of the specification: placed words
  oldest first, then the placed word's letter index, then the candidate's letter index;
  only pairs of equal letters.
\<close>

definition crossings :: "string \<Rightarrow> PlacedWord list \<Rightarrow> (int \<times> int \<times> int) list" where
  "crossings wd placed =
     concat (map (\<lambda>pw.
       concat (map (\<lambda>i.
         concat (map (\<lambda>j. if word (entry pw) ! i = wd ! j then crossing_of pw i j else [])
                     [0..<length wd]))
         [0..<length (word (entry pw))]))
       placed)"

text \<open>First fit: commit the first placement of a list that \<open>can_place\<close> accepts.\<close>

definition first_fit_among ::
  "WordEntry \<Rightarrow> grid \<Rightarrow> (int \<times> int \<times> int) list \<Rightarrow> error + (PlacedWord option \<times> grid)" where
  "first_fit_among e grid candidates =
     (case find (\<lambda>(rw, cl, dir). can_place (word e) rw cl dir grid = Inr True) candidates of
        None \<Rightarrow> Inr (None, grid)
      | Some (rw, cl, dir) \<Rightarrow>
          (case place_word (word e) rw cl dir grid of
             Inl err \<Rightarrow> Inl err
           | Inr grid' \<Rightarrow> Inr (Some \<lparr>entry = e, row = rw, col = cl, direction = dir\<rparr>, grid')))"

definition first_fit ::
  "WordEntry \<Rightarrow> PlacedWord list \<Rightarrow> grid \<Rightarrow> error + (PlacedWord option \<times> grid)" where
  "first_fit e placed grid = first_fit_among e grid (crossings (word e) placed)"

subsection \<open>Placed words and the grid\<close>

text \<open>The cell of letter \<open>i\<close> of a placed word, as lines 147-148 and 253-254 compute it.\<close>

definition placed_cell :: "PlacedWord \<Rightarrow> nat \<Rightarrow> int \<times> int" where
  "placed_cell pw i =
     (row pw + (if direction pw = 1 then int i else 0),
      col pw + (if direction pw = 0 then int i else 0))"

text \<open>
  Reading the grid from the anchor of a placed word along its direction gives its
  letters, every cell read being on the grid.
\<close>

definition reads_back :: "grid \<Rightarrow> PlacedWord \<Rightarrow> bool" where
  "reads_back grid pw =
     ((\<forall>i \<in> set [0..<length (word (entry pw))].
         on_grid grid (fst (placed_cell pw i)) (snd (placed_cell pw i))) \<and>
      read_word grid (row pw) (col pw) (direction pw) (length (word (entry pw)))
        = map (\<lambda>ch. Inr (Some ch)) (word (entry pw)))"

text \<open>Placed words that cover a common cell have the same letter there.\<close>

definition agree_on_shared :: "PlacedWord list \<Rightarrow> bool" where
  "agree_on_shared placed =
     (\<forall>p \<in> set placed. \<forall>q \<in> set placed.
        \<forall>i \<in> set [0..<length (word (entry p))]. \<forall>j \<in> set [0..<length (word (entry q))].
          placed_cell p i = placed_cell q j \<longrightarrow> word (entry p) ! i = word (entry q) ! j)"

text \<open>The invariant of the generation loop.\<close>

definition covers :: "grid \<Rightarrow> PlacedWord \<Rightarrow> bool" where
  "covers grid pw =
     ((direction pw = 0 \<or> direction pw = 1) \<and>
      (\<forall>i<length (word (entry pw)).
         on_grid grid (fst (placed_cell pw i)) (snd (placed_cell pw i)) \<and>
         letter_at grid (fst (placed_cell pw i)) (snd (placed_cell pw i))
           = Some (word (entry pw) ! i)))"

definition generation_invariant :: "grid \<Rightarrow> PlacedWord list \<Rightarrow> bool" where
  "generation_invariant grid placed = (square grid \<and> (\<forall>pw \<in> set placed. covers grid pw))"

subsection \<open>Numbering as the specification words it\<close>

text \<open>
  Specification, section 4.6. A cell begins an across answer when the cell to its left
  is empty or off the grid and the cell to its right is on the grid and not empty; it
  begins a down answer likewise with the cells above and below. A non-empty cell is
  numbered when it begins an answer.
\<close>

definition across_start :: "grid \<Rightarrow> int \<times> int \<Rightarrow> bool" where
  "across_start grid p =
     (letter_at grid (fst p) (snd p - 1) = None \<and> letter_at grid (fst p) (snd p + 1) \<noteq> None)"

definition down_start :: "grid \<Rightarrow> int \<times> int \<Rightarrow> bool" where
  "down_start grid p =
     (letter_at grid (fst p - 1) (snd p) = None \<and> letter_at grid (fst p + 1) (snd p) \<noteq> None)"

definition numbered :: "grid \<Rightarrow> int \<times> int \<Rightarrow> bool" where
  "numbered grid p =
     (letter_at grid (fst p) (snd p) \<noteq> None \<and> (across_start grid p \<or> down_start grid p))"

text \<open>The numbered cells in row-major order.\<close>

definition numbered_cells :: "grid \<Rightarrow> (int \<times> int) list" where
  "numbered_cells grid = filter (numbered grid) (scan_order grid)"

text \<open>
  The clue of the first placed word, in placement order, with the given direction and
  anchor.
\<close>

definition anchored_clue :: "int \<Rightarrow> int \<times> int \<Rightarrow> PlacedWord list \<Rightarrow> string option" where
  "anchored_clue dir p placed =
     map_option (\<lambda>pw. clue (entry pw))
       (find (\<lambda>pw. direction pw = dir \<and> row pw = fst p \<and> col pw = snd p) placed)"

text \<open>Row-major order on cells.\<close>

definition row_major_less :: "int \<times> int \<Rightarrow> int \<times> int \<Rightarrow> bool" where
  "row_major_less p q = (fst p < fst q \<or> (fst p = fst q \<and> snd p < snd q))"

text \<open>What the loop body does at a numbered cell.\<close>

fun assign :: "PlacedWord list \<Rightarrow> grid \<Rightarrow> int \<times> int \<Rightarrow> numbering \<Rightarrow> numbering" where
  "assign placed_words grid p (n, numbers, across, down) =
     (n + 1, numbers(n \<mapsto> p),
      (if across_start grid p then bind_clue 0 (fst p) (snd p) n placed_words across else across),
      (if down_start grid p then bind_clue 1 (fst p) (snd p) n placed_words down else down))"

section \<open>Reading cells of a square grid\<close>

lemma norm_index_in: "0 \<le> i \<Longrightarrow> i < int n \<Longrightarrow> norm_index n i = Some (nat i)"
  by (simp add: norm_index_def)

lemma cell_at_on_grid:
  "square grid \<Longrightarrow> on_grid grid r c \<Longrightarrow> cell_at grid r c = Inr (letter_at grid r c)"
proof -
  assume sq: "square grid" and og: "on_grid grid r c"
  have "nat r < length grid" using og unfolding on_grid_def by linarith
  then have "grid ! nat r \<in> set grid" by (rule nth_mem)
  then have len: "length (grid ! nat r) = length grid" using sq by (simp add: square_def)
  show ?thesis using og len
    by (simp add: cell_at_def list_item_def norm_index_in on_grid_def letter_at_def)
qed

lemma occupied_on_grid:
  "square grid \<Longrightarrow> on_grid grid r c \<Longrightarrow> occupied grid r c = Inr (letter_at grid r c \<noteq> None)"
  by (simp add: occupied_def cell_at_on_grid)

lemma letter_at_off: "\<not> on_grid grid r c \<Longrightarrow> letter_at grid r c = None"
  by (simp add: letter_at_def)

lemma side_blocked_on_grid:
  assumes "square grid" "on_grid grid r c"
  shows "side_blocked dir r c grid =
     Inr (\<not> (if dir = 0
          then letter_at grid (r - 1) c = None \<and> letter_at grid (r + 1) c = None
          else letter_at grid r (c - 1) = None \<and> letter_at grid r (c + 1) = None))"
proof -
  have up: "(if r > 0 then occupied grid (r - 1) c else Inr False) = Inr (letter_at grid (r - 1) c \<noteq> None)"
    using assms by (auto simp: occupied_on_grid on_grid_def letter_at_off)
  have down: "(if r < int (length grid) - 1 then occupied grid (r + 1) c else Inr False) = Inr (letter_at grid (r + 1) c \<noteq> None)"
    using assms by (auto simp: occupied_on_grid on_grid_def letter_at_off)
  have left: "(if c > 0 then occupied grid r (c - 1) else Inr False) = Inr (letter_at grid r (c - 1) \<noteq> None)"
    using assms by (auto simp: occupied_on_grid on_grid_def letter_at_off)
  have right: "(if c < int (length grid) - 1 then occupied grid r (c + 1) else Inr False) = Inr (letter_at grid r (c + 1) \<noteq> None)"
    using assms by (auto simp: occupied_on_grid on_grid_def letter_at_off)
  show ?thesis
    unfolding side_blocked_def Let_def up down left right by (auto split: bool.splits)
qed

section \<open>can\_place against its specification\<close>

lemma can_place_loop_Cons:
  assumes "square grid"
  shows "can_place_loop (ch # rest) i rw cl dir grid =
     (if fits grid dir (rw + (if dir = 1 then i else 0)) (cl + (if dir = 0 then i else 0)) ch
      then can_place_loop rest (i + 1) rw cl dir grid else Inr False)"
proof -
  let ?r = "rw + (if dir = 1 then i else 0)"
  let ?c = "cl + (if dir = 0 then i else 0)"
  show ?thesis
  proof (cases "on_grid grid ?r ?c")
    case False
    then have "?r < 0 \<or> ?r \<ge> int (length grid) \<or> ?c < 0 \<or> ?c \<ge> int (length grid)"
      unfolding on_grid_def by linarith
    then have "can_place_loop (ch # rest) i rw cl dir grid = Inr False"
      unfolding can_place_loop.simps Let_def by (simp only: if_True)
    moreover have "\<not> fits grid dir ?r ?c ch" using False by (simp add: fits_def)
    ultimately show ?thesis by simp
  next
    case True
    then have bounds: "\<not> (?r < 0 \<or> ?r \<ge> int (length grid) \<or> ?c < 0 \<or> ?c \<ge> int (length grid))"
      unfolding on_grid_def by linarith
    have rd: "cell_at grid ?r ?c = Inr (letter_at grid ?r ?c)"
      using assms True by (rule cell_at_on_grid)
    have sb: "side_blocked dir ?r ?c grid = Inr (\<not> (if dir = 0
          then letter_at grid (?r - 1) ?c = None \<and> letter_at grid (?r + 1) ?c = None
          else letter_at grid ?r (?c - 1) = None \<and> letter_at grid ?r (?c + 1) = None))"
      using assms True by (rule side_blocked_on_grid)
    have unfold: "can_place_loop (ch # rest) i rw cl dir grid =
        (if letter_at grid ?r ?c \<noteq> None \<and> letter_at grid ?r ?c \<noteq> Some ch then Inr False
         else (case (if letter_at grid ?r ?c = None then side_blocked dir ?r ?c grid else Inr False) of
                 Inl e \<Rightarrow> Inl e
               | Inr True \<Rightarrow> Inr False
               | Inr False \<Rightarrow> can_place_loop rest (i + 1) rw cl dir grid))"
      unfolding can_place_loop.simps Let_def by (simp only: bounds if_False rd sum.case)
    show ?thesis
    proof (cases "letter_at grid ?r ?c")
      case None
      show ?thesis unfolding unfold sb using None True
        by (simp add: fits_def split: bool.splits)
    next
      case (Some a)
      show ?thesis unfolding unfold using Some True
        by (simp add: fits_def)
    qed
  qed
qed

lemma can_place_loop_fits:
  assumes "square grid"
  shows "can_place_loop wd (int k) rw cl dir grid =
     Inr (\<forall>i<length wd. fits grid dir (rw + (if dir = 1 then int (k + i) else 0))
                                      (cl + (if dir = 0 then int (k + i) else 0)) (wd ! i))"
proof (induction wd arbitrary: k)
  case Nil
  show ?case by simp
next
  case (Cons ch rest)
  have step: "int k + 1 = int (Suc k)" by simp
  have split_all: "\<And>P. (\<forall>i<length (ch # rest). P i) = (P 0 \<and> (\<forall>i<length rest. P (Suc i)))"
    by (auto simp: less_Suc_eq_0_disj)
  show ?case
    unfolding can_place_loop_Cons [OF assms] step Cons.IH split_all
    by simp
qed


lemma ends_blocked_on_grid:
  assumes "square grid" "on_grid grid rw cl"
  shows "ends_blocked wd rw cl dir grid = Inr (\<not> ends_clear wd rw cl dir grid)"
proof -
  have before_h: "(if cl > 0 then occupied grid rw (cl - 1) else Inr False) = Inr (letter_at grid rw (cl - 1) \<noteq> None)"
    using assms by (auto simp: occupied_on_grid on_grid_def letter_at_off)
  have after_h: "(if cl + int (length wd) < int (length grid) then occupied grid rw (cl + int (length wd)) else Inr False)
        = Inr (letter_at grid rw (cl + int (length wd)) \<noteq> None)"
    using assms by (auto simp: occupied_on_grid on_grid_def letter_at_off)
  have before_v: "(if rw > 0 then occupied grid (rw - 1) cl else Inr False) = Inr (letter_at grid (rw - 1) cl \<noteq> None)"
    using assms by (auto simp: occupied_on_grid on_grid_def letter_at_off)
  have after_v: "(if rw + int (length wd) < int (length grid) then occupied grid (rw + int (length wd)) cl else Inr False)
        = Inr (letter_at grid (rw + int (length wd)) cl \<noteq> None)"
    using assms by (auto simp: occupied_on_grid on_grid_def letter_at_off)
  show ?thesis
    unfolding ends_blocked_def ends_clear_def Let_def before_h after_h before_v after_v
    by (auto split: bool.splits)
qed

lemma fits_all_iff:
  assumes "dir = 0 \<or> dir = 1"
  shows "(\<forall>i<length wd. fits grid dir (rw + (if dir = 1 then int (0 + i) else 0))
                                      (cl + (if dir = 0 then int (0 + i) else 0)) (wd ! i))
     = (within_bounds wd rw cl dir grid \<and> no_conflict wd rw cl dir grid \<and> sides_clear wd rw cl dir grid)"
proof -
  have "(\<forall>i<length wd. P i \<and> Q i \<and> R i) =
        ((\<forall>i\<in>set [0..<length wd]. P i) \<and> (\<forall>i\<in>set [0..<length wd]. Q i) \<and>
         (\<forall>i\<in>set [0..<length wd]. R i))" for P Q R :: "nat \<Rightarrow> bool"
    by auto
  then show ?thesis
    using assms
    unfolding fits_def within_bounds_def no_conflict_def sides_clear_def target_cell_def Let_def
    by auto
qed

lemma can_place_char:
  assumes sq: "square grid" and ne: "wd \<noteq> []" and d: "dir = 0 \<or> dir = 1"
  shows "can_place wd rw cl dir grid = Inr (can_place_spec wd rw cl dir grid)"
proof -
  let ?A = "within_bounds wd rw cl dir grid \<and> no_conflict wd rw cl dir grid \<and> sides_clear wd rw cl dir grid"
  have loop: "can_place_loop wd 0 rw cl dir grid = Inr ?A"
    using can_place_loop_fits [OF sq, of wd 0 rw cl dir] fits_all_iff [OF d, of wd grid rw cl]
    by simp
  show ?thesis
  proof (cases ?A)
    case False
    then have "can_place_loop wd 0 rw cl dir grid = Inr False" using loop by simp
    then show ?thesis using False by (auto simp: can_place_def can_place_spec_def)
  next
    case True
    then have "within_bounds wd rw cl dir grid" by simp
    moreover have "0 \<in> set [0..<length wd]" using ne by simp
    ultimately have "on_grid grid (fst (target_cell rw cl dir 0)) (snd (target_cell rw cl dir 0))"
      unfolding within_bounds_def by blast
    then have "on_grid grid rw cl" by (simp add: target_cell_def split: if_splits)
    then have "ends_blocked wd rw cl dir grid = Inr (\<not> ends_clear wd rw cl dir grid)"
      using sq by (simp add: ends_blocked_on_grid)
    moreover have "can_place_loop wd 0 rw cl dir grid = Inr True" using loop True by simp
    ultimately show ?thesis using True by (simp add: can_place_def can_place_spec_def)
  qed
qed

lemma within_bounds_length:
  assumes "within_bounds wd rw cl dir grid"
  shows "length wd \<le> length grid"
proof (cases wd)
  case Nil
  then show ?thesis by simp
next
  case (Cons a list)
  then have "0 \<in> set [0..<length wd]" and "length wd - 1 \<in> set [0..<length wd]" by simp_all
  with assms have f: "on_grid grid (fst (target_cell rw cl dir 0)) (snd (target_cell rw cl dir 0))"
    and l: "on_grid grid (fst (target_cell rw cl dir (length wd - 1))) (snd (target_cell rw cl dir (length wd - 1)))"
    unfolding within_bounds_def by blast+
  have "int (length wd - 1) < int (length grid)"
    using f l by (auto simp: target_cell_def on_grid_def split: if_splits)
  then show ?thesis using Cons by simp
qed

text \<open>
  C1, for non-empty words. For every non-empty word, start cell, direction 0 or 1 and square
  grid, \<open>can_place\<close> returns (raising nothing) and returns True exactly when the four
  conditions hold: every target cell is on the grid, no target cell holds a letter
  other than the word's letter at that index, every empty target cell has its on-grid
  perpendicular neighbours empty, and the on-grid cells just before the start and just
  after the end are empty.
\<close>

theorem can_place_iff_conditions:
  assumes "square grid" and "wd \<noteq> []" and "dir = 0 \<or> dir = 1"
  shows "can_place wd rw cl dir grid = Inr (can_place_spec wd rw cl dir grid)"
  using assms by (rule can_place_char)

theorem can_place_iff_conditions_witness:
  "square [[None, Some CHR ''B''], [None, None]] \<and> ''AB'' \<noteq> [] \<and>
   can_place ''AB'' 0 0 0 [[None, Some CHR ''B''], [None, None]] = Inr True \<and>
   can_place_spec ''AB'' 0 0 0 [[None, Some CHR ''B''], [None, None]]"
proof -
  have sq: "square [[None, Some CHR ''B''], [None, None]]"
    by (simp add: square_def)
  have sp: "can_place_spec ''AB'' 0 0 0 [[None, Some CHR ''B''], [None, None]]"
    by (simp add: can_place_spec_def within_bounds_def no_conflict_def sides_clear_def
        ends_clear_def target_cell_def letter_at_def on_grid_def)
  show ?thesis
    using can_place_iff_conditions [OF sq, of "''AB''" 0 0 0] sq sp by simp
qed

text \<open>
  C1 as stated fails for the empty word: with start row -1 no target cell exists and
  both end cells are off the grid, so the four conditions hold, but the test of the
  cell before the start reads \<open>grid[-1][0]\<close>, which Python takes from the last row.
\<close>

theorem can_place_empty_word_counterexample:
  "square [[None, None], [Some CHR ''A'', None]] \<and>
   can_place [] (- 1) 1 0 [[None, None], [Some CHR ''A'', None]] = Inr False \<and>
   can_place_spec [] (- 1) 1 0 [[None, None], [Some CHR ''A'', None]]"
  by (simp add: square_def can_place_def ends_blocked_def occupied_def cell_at_def
      list_item_def norm_index_def can_place_spec_def within_bounds_def no_conflict_def
      sides_clear_def ends_clear_def letter_at_def on_grid_def)

section \<open>place\_word on a validated placement\<close>

lemma set_cell_on_grid:
  assumes "square grid" "on_grid grid r c"
  shows "set_cell grid r c ch = Inr (grid[nat r := (grid ! nat r)[nat c := Some ch]])"
proof -
  have r: "nat r < length grid" using assms(2) unfolding on_grid_def by linarith
  then have "grid ! nat r \<in> set grid" by (rule nth_mem)
  then have len: "length (grid ! nat r) = length grid" using assms(1) by (simp add: square_def)
  show ?thesis using assms(2) len
    by (simp add: set_cell_def norm_index_in on_grid_def)
qed

lemma square_update:
  assumes "square grid" "nat r < length grid"
  shows "square (grid[nat r := (grid ! nat r)[nat c := x]])"
proof -
  have "grid ! nat r \<in> set grid" using assms(2) by (rule nth_mem)
  then have "length (grid ! nat r) = length grid" using assms(1) by (simp add: square_def)
  then show ?thesis using assms
    unfolding square_def by (auto dest!: set_update_subset_insert [THEN subsetD])
qed

lemma letter_at_update:
  assumes "square grid" "on_grid grid r c"
  shows "letter_at (grid[nat r := (grid ! nat r)[nat c := x]]) r' c' =
         (if r' = r \<and> c' = c then x else letter_at grid r' c')"
proof -
  have r: "nat r < length grid" and c: "nat c < length grid" and r0: "0 \<le> r" and c0: "0 \<le> c"
    using assms(2) unfolding on_grid_def by linarith+
  have "grid ! nat r \<in> set grid" using r by (rule nth_mem)
  then have len: "length (grid ! nat r) = length grid" using assms(1) by (simp add: square_def)
  show ?thesis
  proof (cases "on_grid grid r' c'")
    case False
    then show ?thesis using assms(2) by (auto simp: letter_at_def on_grid_def)
  next
    case True
    then have r': "nat r' < length grid" and c': "nat c' < length grid" and r0': "0 \<le> r'" and c0': "0 \<le> c'"
      unfolding on_grid_def by linarith+
    have eqr: "(nat r = nat r') = (r' = r)" using r0 r0' by linarith
    have eqc: "(nat c = nat c') = (c' = c)" using c0 c0' by linarith
    have og: "on_grid (grid[nat r := (grid ! nat r)[nat c := x]]) r' c'"
      using True by (simp add: on_grid_def)
    show ?thesis unfolding letter_at_def using True og r r' c c' len
      by (simp add: nth_list_update eqr eqc)
  qed
qed


lemma set_cell_result:
  assumes "square grid" "on_grid grid r c"
  shows "\<exists>g1. set_cell grid r c ch = Inr g1 \<and> square g1 \<and> length g1 = length grid \<and>
           (\<forall>r' c'. letter_at g1 r' c' = (if r' = r \<and> c' = c then Some ch else letter_at grid r' c'))"
proof -
  have r: "nat r < length grid" using assms(2) unfolding on_grid_def by linarith
  show ?thesis
    using set_cell_on_grid [OF assms] square_update [OF assms(1) r] letter_at_update [OF assms]
    by simp
qed

lemma place_word_loop_result:
  assumes d: "dir = 0 \<or> dir = 1"
  shows "square grid \<Longrightarrow>
     (\<forall>i<length wd. on_grid grid (rw + (if dir = 1 then int (k + i) else 0))
                                  (cl + (if dir = 0 then int (k + i) else 0))) \<Longrightarrow>
     \<exists>g'. place_word_loop wd (int k) rw cl dir grid = Inr g' \<and> square g' \<and>
          length g' = length grid \<and>
          (\<forall>i<length wd. letter_at g' (rw + (if dir = 1 then int (k + i) else 0))
                                       (cl + (if dir = 0 then int (k + i) else 0)) = Some (wd ! i)) \<and>
          (\<forall>r c. (\<forall>i<length wd. (r, c) \<noteq> (rw + (if dir = 1 then int (k + i) else 0),
                                             cl + (if dir = 0 then int (k + i) else 0)))
                 \<longrightarrow> letter_at g' r c = letter_at grid r c)"
proof (induction wd arbitrary: k grid)
  case Nil
  then show ?case by simp
next
  case (Cons ch rest)
  let ?R = "\<lambda>n. rw + (if dir = 1 then int n else 0)"
  let ?C = "\<lambda>n. cl + (if dir = 0 then int n else 0)"
  have og0: "on_grid grid (?R k) (?C k)"
    using Cons.prems(2) [rule_format, of 0] by (auto split: if_splits)
  obtain g1 where g1: "set_cell grid (?R k) (?C k) ch = Inr g1" "square g1" "length g1 = length grid"
      and g1_at: "\<And>r' c'. letter_at g1 r' c' = (if r' = ?R k \<and> c' = ?C k then Some ch else letter_at grid r' c')"
    using set_cell_result [OF Cons.prems(1) og0, of ch] by blast
  have og_rest: "\<forall>i<length rest. on_grid g1 (?R (Suc k + i)) (?C (Suc k + i))"
  proof (intro allI impI)
    fix i assume "i < length rest"
    then have "Suc i < length (ch # rest)" by simp
    from Cons.prems(2) [rule_format, OF this]
    show "on_grid g1 (?R (Suc k + i)) (?C (Suc k + i))"
      by (auto simp: on_grid_def g1(3) split: if_splits)
  qed
  obtain g' where g': "place_word_loop rest (int (Suc k)) rw cl dir g1 = Inr g'" "square g'"
      "length g' = length g1"
      and g'_in: "\<forall>i<length rest. letter_at g' (?R (Suc k + i)) (?C (Suc k + i)) = Some (rest ! i)"
      and g'_out: "\<forall>r c. (\<forall>i<length rest. (r, c) \<noteq> (?R (Suc k + i), ?C (Suc k + i)))
                 \<longrightarrow> letter_at g' r c = letter_at g1 r c"
    using Cons.IH [OF g1(2) og_rest] by blast
  have step: "int k + 1 = int (Suc k)" by simp
  have run: "place_word_loop (ch # rest) (int k) rw cl dir grid = Inr g'"
    unfolding place_word_loop.simps Let_def by (simp only: g1(1) sum.case step g'(1))
  have first: "letter_at g' (?R k) (?C k) = Some ch"
  proof -
    have "\<forall>i<length rest. (?R k, ?C k) \<noteq> (?R (Suc k + i), ?C (Suc k + i))"
      using d by auto
    then have "letter_at g' (?R k) (?C k) = letter_at g1 (?R k) (?C k)"
      using g'_out by blast
    then show ?thesis by (simp add: g1_at)
  qed
  have inside: "\<forall>i<length (ch # rest). letter_at g' (?R (k + i)) (?C (k + i)) = Some ((ch # rest) ! i)"
  proof (intro allI impI)
    fix i assume i: "i < length (ch # rest)"
    show "letter_at g' (?R (k + i)) (?C (k + i)) = Some ((ch # rest) ! i)"
    proof (cases i)
      case 0
      then show ?thesis using first by (auto split: if_splits)
    next
      case (Suc j)
      then have "j < length rest" using i by simp
      then have "letter_at g' (?R (Suc k + j)) (?C (Suc k + j)) = Some (rest ! j)"
        using g'_in by blast
      then show ?thesis using Suc by (auto split: if_splits)
    qed
  qed
  have outside: "\<forall>r c. (\<forall>i<length (ch # rest). (r, c) \<noteq> (?R (k + i), ?C (k + i)))
                 \<longrightarrow> letter_at g' r c = letter_at grid r c"
  proof (intro allI impI)
    fix r c assume out: "\<forall>i<length (ch # rest). (r, c) \<noteq> (?R (k + i), ?C (k + i))"
    have "\<forall>i<length rest. (r, c) \<noteq> (?R (Suc k + i), ?C (Suc k + i))"
    proof (intro allI impI)
      fix i assume "i < length rest"
      then have "Suc i < length (ch # rest)" by simp
      from out [rule_format, OF this] show "(r, c) \<noteq> (?R (Suc k + i), ?C (Suc k + i))"
        by (auto split: if_splits)
    qed
    then have a: "letter_at g' r c = letter_at g1 r c" using g'_out by blast
    have "(r, c) \<noteq> (?R k, ?C k)" using out [rule_format, of 0] by (auto split: if_splits)
    then have "letter_at g1 r c = letter_at grid r c" by (auto simp: g1_at)
    with a show "letter_at g' r c = letter_at grid r c" by simp
  qed
  show ?case using run g'(2) g'(3) g1(3) inside outside by simp
qed


lemma place_word_result:
  assumes "dir = 0 \<or> dir = 1" and "square grid"
    and "\<forall>i<length wd. on_grid grid (rw + (if dir = 1 then int i else 0))
                                     (cl + (if dir = 0 then int i else 0))"
  shows "\<exists>g'. place_word wd rw cl dir grid = Inr g' \<and> square g' \<and>
          length g' = length grid \<and>
          (\<forall>i<length wd. letter_at g' (rw + (if dir = 1 then int i else 0))
                                       (cl + (if dir = 0 then int i else 0)) = Some (wd ! i)) \<and>
          (\<forall>r c. (\<forall>i<length wd. (r, c) \<noteq> (rw + (if dir = 1 then int i else 0),
                                             cl + (if dir = 0 then int i else 0)))
                 \<longrightarrow> letter_at g' r c = letter_at grid r c)"
  unfolding place_word_def
  by (rule place_word_loop_result [OF assms(1,2), of wd rw 0 cl, unfolded add_0 of_nat_0])
     (rule assms(3))

lemma can_place_True_fits:
  assumes "square grid" and "can_place wd rw cl dir grid = Inr True"
  shows "\<forall>i<length wd. fits grid dir (rw + (if dir = 1 then int i else 0))
                                      (cl + (if dir = 0 then int i else 0)) (wd ! i)"
proof -
  have "can_place_loop wd 0 rw cl dir grid = Inr True"
    using assms(2) by (auto simp: can_place_def split: sum.splits bool.splits)
  then show ?thesis
    unfolding can_place_loop_fits [OF assms(1), of wd 0 rw cl dir, unfolded add_0 of_nat_0]
    by (simp only: sum.inject)
qed

lemma can_place_place_word:
  assumes "dir = 0 \<or> dir = 1" and "square grid" and "can_place wd rw cl dir grid = Inr True"
  shows "\<exists>g'. place_word wd rw cl dir grid = Inr g' \<and> square g' \<and>
          length g' = length grid \<and>
          (\<forall>i<length wd. on_grid g' (rw + (if dir = 1 then int i else 0))
                                    (cl + (if dir = 0 then int i else 0)) \<and>
                          letter_at g' (rw + (if dir = 1 then int i else 0))
                                       (cl + (if dir = 0 then int i else 0)) = Some (wd ! i)) \<and>
          (\<forall>r c. letter_at grid r c \<noteq> None \<longrightarrow> letter_at g' r c = letter_at grid r c)"
proof -
  note f = can_place_True_fits [OF assms(2,3)]
  have og: "\<forall>i<length wd. on_grid grid (rw + (if dir = 1 then int i else 0))
                                     (cl + (if dir = 0 then int i else 0))"
    using f by (simp add: fits_def)
  obtain g' where g': "place_word wd rw cl dir grid = Inr g'" "square g'" "length g' = length grid"
    and inside: "\<forall>i<length wd. letter_at g' (rw + (if dir = 1 then int i else 0))
                                       (cl + (if dir = 0 then int i else 0)) = Some (wd ! i)"
    and outside: "\<forall>r c. (\<forall>i<length wd. (r, c) \<noteq> (rw + (if dir = 1 then int i else 0),
                                             cl + (if dir = 0 then int i else 0)))
                 \<longrightarrow> letter_at g' r c = letter_at grid r c"
    using place_word_result [OF assms(1,2) og] by blast
  have og': "\<forall>i<length wd. on_grid g' (rw + (if dir = 1 then int i else 0))
                                     (cl + (if dir = 0 then int i else 0))"
    using og by (simp add: on_grid_def g'(3))
  have keep: "\<forall>r c. letter_at grid r c \<noteq> None \<longrightarrow> letter_at g' r c = letter_at grid r c"
  proof (intro allI impI)
    fix r c assume occ: "letter_at grid r c \<noteq> None"
    show "letter_at g' r c = letter_at grid r c"
    proof (cases "\<exists>i<length wd. (r, c) = (rw + (if dir = 1 then int i else 0),
                                             cl + (if dir = 0 then int i else 0))")
      case False
      then show ?thesis using outside by blast
    next
      case True
      then obtain i where i: "i < length wd" "r = rw + (if dir = 1 then int i else 0)"
        "c = cl + (if dir = 0 then int i else 0)" by auto
      have "letter_at grid r c \<in> {None, Some (wd ! i)}"
        using f i by (simp add: fits_def)
      then have "letter_at grid r c = Some (wd ! i)" using occ by simp
      moreover have "letter_at g' r c = Some (wd ! i)" using inside i by simp
      ultimately show ?thesis by simp
    qed
  qed
  show ?thesis using g' inside og' keep by blast
qed

text \<open>
  C6. When \<open>can_place\<close> returns True (direction 0 or 1, square grid), \<open>place_word\<close>
  on the same arguments raises nothing, and reading the new grid at the target cells in
  index order gives exactly the letters of the word.
\<close>

theorem place_then_read:
  assumes "dir = 0 \<or> dir = 1" and "square grid" and "can_place wd rw cl dir grid = Inr True"
  shows "\<exists>grid'. place_word wd rw cl dir grid = Inr grid' \<and>
           read_word grid' rw cl dir (length wd) = map (\<lambda>ch. Inr (Some ch)) wd"
proof -
  obtain g' where g': "place_word wd rw cl dir grid = Inr g'" "square g'"
    and inside: "\<forall>i<length wd. on_grid g' (rw + (if dir = 1 then int i else 0))
                                    (cl + (if dir = 0 then int i else 0)) \<and>
                          letter_at g' (rw + (if dir = 1 then int i else 0))
                                       (cl + (if dir = 0 then int i else 0)) = Some (wd ! i)"
    using can_place_place_word [OF assms] by blast
  have "read_word g' rw cl dir (length wd) = map (\<lambda>ch. Inr (Some ch)) wd"
  proof (rule nth_equalityI)
    show "length (read_word g' rw cl dir (length wd)) = length (map (\<lambda>ch. Inr (Some ch)) wd)"
      by (simp add: read_word_def)
  next
    fix i assume "i < length (read_word g' rw cl dir (length wd))"
    then have i: "i < length wd" by (simp add: read_word_def)
    then show "read_word g' rw cl dir (length wd) ! i = map (\<lambda>ch. Inr (Some ch)) wd ! i"
      using inside cell_at_on_grid [OF g'(2)] by (simp add: read_word_def)
  qed
  with g'(1) show ?thesis by blast
qed

lemma demo_square: "square [[None, Some CHR ''B''], [None, None]]" by (simp add: square_def)

lemma demo_can_place: "can_place ''AB'' 0 0 0 [[None, Some CHR ''B''], [None, None]] = Inr True"
  by (simp add: can_place_def ends_blocked_def side_blocked_def occupied_def cell_at_def list_item_def norm_index_def)

theorem place_then_read_witness:
  "square [[None, Some CHR ''B''], [None, None]] \<and>
   can_place ''AB'' 0 0 0 [[None, Some CHR ''B''], [None, None]] = Inr True \<and>
   place_word ''AB'' 0 0 0 [[None, Some CHR ''B''], [None, None]]
     = Inr [[Some CHR ''A'', Some CHR ''B''], [None, None]] \<and>
   read_word [[Some CHR ''A'', Some CHR ''B''], [None, None]] 0 0 0 (length ''AB'')
     = map (\<lambda>ch. Inr (Some ch)) ''AB''"
proof -
  have pw: "place_word ''AB'' 0 0 0 [[None, Some CHR ''B''], [None, None]]
     = Inr [[Some CHR ''A'', Some CHR ''B''], [None, None]]"
    by (simp add: place_word_def set_cell_def norm_index_def)
  show ?thesis
    using place_then_read [OF _ demo_square demo_can_place] demo_square demo_can_place pw by simp
qed

section \<open>Outcomes of try\_place\_word\<close>

lemma can_place_returns:
  assumes "square grid" "wd \<noteq> []" "dir = 0 \<or> dir = 1"
  shows "can_place wd rw cl dir grid = Inr True \<or> can_place wd rw cl dir grid = Inr False"
  using can_place_char [OF assms] by auto

lemma cross_letters_outcome:
  assumes sq: "square grid" and ne: "word e \<noteq> []"
  shows "written_or_untouched e grid (cross_letters e placed_word i pw_ch rest j grid)"
proof (induction rest arbitrary: j)
  case Nil
  show ?case by (simp add: written_or_untouched_def)
next
  case (Cons ch rest)
  let ?rw = "if direction placed_word = 0 then row placed_word - j else row placed_word + i"
  let ?cl = "if direction placed_word = 0 then col placed_word + i else col placed_word - j"
  let ?dir = "if direction placed_word = 0 then 1 else (0::int)"
  have d: "?dir = 0 \<or> ?dir = 1" by simp
  show ?case
  proof (cases "pw_ch \<noteq> ch")
    case True
    then show ?thesis using Cons.IH by simp
  next
    case same: False
    from can_place_returns [OF sq ne d, of ?rw ?cl]
    show ?thesis
    proof
      assume no: "can_place (word e) ?rw ?cl ?dir grid = Inr False"
      have "cross_letters e placed_word i pw_ch (ch # rest) j grid
            = cross_letters e placed_word i pw_ch rest (j + 1) grid"
        using same no unfolding cross_letters.simps Let_def by simp
      then show ?thesis using Cons.IH by simp
    next
      assume yes: "can_place (word e) ?rw ?cl ?dir grid = Inr True"
      obtain g' where g': "place_word (word e) ?rw ?cl ?dir grid = Inr g'"
        using can_place_place_word [OF d sq yes] by blast
      have "cross_letters e placed_word i pw_ch (ch # rest) j grid
            = Inr (Some \<lparr>entry = e, row = ?rw, col = ?cl, direction = ?dir\<rparr>, g')"
        using same yes g' unfolding cross_letters.simps Let_def by simp
      then show ?thesis using yes g' by (simp add: written_or_untouched_def)
    qed
  qed
qed

lemma cross_placed_outcome:
  assumes sq: "square grid"
  shows "written_or_untouched e grid (cross_placed e placed_word rest i grid)"
proof (induction rest arbitrary: i)
  case Nil
  show ?case by (simp add: written_or_untouched_def)
next
  case (Cons pw_ch rest)
  have inner: "written_or_untouched e grid (cross_letters e placed_word i pw_ch (word e) 0 grid)"
  proof (cases "word e = []")
    case True
    then show ?thesis by (simp add: written_or_untouched_def)
  next
    case False
    with sq show ?thesis by (rule cross_letters_outcome)
  qed
  show ?case
  proof (cases "cross_letters e placed_word i pw_ch (word e) 0 grid")
    case (Inl err)
    then show ?thesis using inner by (simp add: written_or_untouched_def)
  next
    case (Inr res)
    show ?thesis
    proof (cases "fst res")
      case None
      then have "res = (None, grid)" using inner Inr
        by (cases res) (simp add: written_or_untouched_def)
      then show ?thesis using Inr Cons.IH by simp
    next
      case (Some p)
      then have "cross_placed e placed_word (pw_ch # rest) i grid
                 = cross_letters e placed_word i pw_ch (word e) 0 grid"
        using Inr by (cases res) simp
      then show ?thesis using inner by simp
    qed
  qed
qed

lemma try_place_word_outcome:
  assumes sq: "square grid"
  shows "written_or_untouched e grid (try_place_word e placed grid)"
proof (induction placed)
  case Nil
  show ?case by (simp add: written_or_untouched_def)
next
  case (Cons placed_word placed)
  note inner = cross_placed_outcome [OF sq, of e placed_word "word (entry placed_word)" 0]
  show ?case
  proof (cases "cross_placed e placed_word (word (entry placed_word)) 0 grid")
    case (Inl err)
    then show ?thesis using inner by (simp add: written_or_untouched_def)
  next
    case (Inr res)
    show ?thesis
    proof (cases "fst res")
      case None
      then have "res = (None, grid)" using inner Inr
        by (cases res) (simp add: written_or_untouched_def)
      then show ?thesis using Inr Cons.IH by simp
    next
      case (Some p)
      then have "try_place_word e (placed_word # placed) grid
                 = cross_placed e placed_word (word (entry placed_word)) 0 grid"
        using Inr by (cases res) simp
      then show ?thesis using inner by simp
    qed
  qed
qed


section \<open>The seed placement on the empty grid\<close>

lemma length_initialise_grid: "length (initialise_grid sz) = nat sz"
  by (simp add: initialise_grid_def)

lemma square_initialise_grid: "square (initialise_grid sz)"
  by (simp add: initialise_grid_def square_def)

lemma letter_at_initialise_grid: "letter_at (initialise_grid sz) r c = None"
proof (cases "on_grid (initialise_grid sz) r c")
  case False
  then show ?thesis by (rule letter_at_off)
next
  case True
  then have "nat r < nat sz" "nat c < nat sz"
    unfolding on_grid_def length_initialise_grid by linarith+
  then show ?thesis using True by (simp add: letter_at_def initialise_grid_def)
qed

lemma can_place_initialise_grid:
  assumes "wd \<noteq> []" "dir = 0 \<or> dir = 1"
  shows "can_place wd rw cl dir (initialise_grid sz)
         = Inr (within_bounds wd rw cl dir (initialise_grid sz))"
  unfolding can_place_char [OF square_initialise_grid assms]
  by (simp add: can_place_spec_def no_conflict_def sides_clear_def ends_clear_def
      letter_at_initialise_grid)

lemma seed_within_bounds:
  assumes "1 \<le> sz" "wd \<noteq> []"
  shows "within_bounds wd (sz div 2) (max 0 ((sz - int (length wd)) div 2)) 0 (initialise_grid sz)
         = (int (length wd) \<le> sz)"
proof (cases "int (length wd) \<le> sz")
  case True
  have r: "0 \<le> sz div 2" "sz div 2 < sz" using assms(1) by simp_all
  have c: "0 \<le> (sz - int (length wd)) div 2" "(sz - int (length wd)) div 2 \<le> sz - int (length wd)"
    using True by simp_all
  have "\<And>i. i < length wd \<Longrightarrow> (sz - int (length wd)) div 2 + int i < sz"
    using c by linarith
  then show ?thesis using True r c assms(1)
    by (auto simp: within_bounds_def target_cell_def on_grid_def length_initialise_grid max_def)
next
  case False
  obtain n where n: "length wd = Suc n" using assms(2) by (cases wd) auto
  have last: "n \<in> set [0..<length wd]" using n by simp
  have "(sz - int (length wd)) div 2 < 0" using False by simp
  then have c0: "max 0 ((sz - int (length wd)) div 2) = 0" by simp
  have far: "\<not> int n < sz" using False n by simp
  have "\<not> on_grid (initialise_grid sz) (fst (target_cell (sz div 2) 0 0 n))
           (snd (target_cell (sz div 2) 0 0 n))"
    using far assms(1) by (simp add: target_cell_def on_grid_def length_initialise_grid)
  then have "\<not> within_bounds wd (sz div 2) 0 0 (initialise_grid sz)"
    unfolding within_bounds_def using last by blast
  then show ?thesis using False c0 by simp
qed

lemma seed_can_place:
  assumes "1 \<le> sz" "wd \<noteq> []"
  shows "can_place wd (sz div 2) (max 0 ((sz - int (length wd)) div 2)) 0 (initialise_grid sz)
         = Inr (int (length wd) \<le> sz)"
  using can_place_initialise_grid [OF assms(2), of 0] seed_within_bounds [OF assms] by simp

lemma seed_can_place_empty_word:
  "can_place [] (sz div 2) (max 0 ((sz - int (length ([]::string))) div 2)) 0 (initialise_grid sz)
   = Inr True"
proof (cases "1 \<le> sz")
  case True
  then have "on_grid (initialise_grid sz) (sz div 2) (max 0 (sz div 2))"
    by (simp add: on_grid_def length_initialise_grid)
  from ends_blocked_on_grid [OF square_initialise_grid this, of "[]" 0]
  show ?thesis
    by (simp add: can_place_def ends_clear_def letter_at_initialise_grid)
next
  case False
  then have "sz div 2 \<le> 0" by simp
  then have "max 0 (sz div 2) = 0" by simp
  moreover have "length (initialise_grid sz) = 0" using False by (simp add: length_initialise_grid)
  ultimately show ?thesis
    by (simp add: can_place_def ends_blocked_def)
qed

lemma seed_can_place_returns:
  "can_place wd (sz div 2) (max 0 ((sz - int (length wd)) div 2)) 0 (initialise_grid sz) = Inr True
   \<or> can_place wd (sz div 2) (max 0 ((sz - int (length wd)) div 2)) 0 (initialise_grid sz) = Inr False"
proof (cases "wd = []")
  case True
  then show ?thesis using seed_can_place_empty_word [of sz] by simp
next
  case False
  then show ?thesis using can_place_returns [OF square_initialise_grid False, of 0] by simp
qed

lemma place_first_outcome:
  "place_first first sz (initialise_grid sz) = Inr (initialise_grid sz, []) \<and>
     can_place (word first) (sz div 2) (max 0 ((sz - int (length (word first))) div 2)) 0
       (initialise_grid sz) = Inr False
   \<or> (\<exists>grid'.
        can_place (word first) (sz div 2) (max 0 ((sz - int (length (word first))) div 2)) 0
          (initialise_grid sz) = Inr True \<and>
        place_word (word first) (sz div 2) (max 0 ((sz - int (length (word first))) div 2)) 0
          (initialise_grid sz) = Inr grid' \<and>
        place_first first sz (initialise_grid sz)
          = Inr (grid', [\<lparr>entry = first, row = sz div 2,
                           col = max 0 ((sz - int (length (word first))) div 2),
                           direction = 0\<rparr>]))"
proof -
  from seed_can_place_returns [of "word first" sz]
  show ?thesis
  proof
    assume no: "can_place (word first) (sz div 2) (max 0 ((sz - int (length (word first))) div 2)) 0
       (initialise_grid sz) = Inr False"
    then show ?thesis by (simp add: place_first_def Let_def)
  next
    assume yes: "can_place (word first) (sz div 2) (max 0 ((sz - int (length (word first))) div 2)) 0
       (initialise_grid sz) = Inr True"
    obtain g' where "place_word (word first) (sz div 2) (max 0 ((sz - int (length (word first))) div 2)) 0
          (initialise_grid sz) = Inr g'"
      using can_place_place_word [OF _ square_initialise_grid yes] by auto
    then show ?thesis using yes by (simp add: place_first_def Let_def)
  qed
qed

section \<open>Placement is all or nothing\<close>

lemma demo_grid_square:
  "square [[None, None, None],
           [Some CHR ''C'', Some CHR ''A'', Some CHR ''T''],
           [None, None, None]]"
  by (simp add: square_def)

lemma demo_try_place_word:
  "try_place_word \<lparr>word = ''TAN'', clue = ''colour''\<rparr>
     [\<lparr>entry = \<lparr>word = ''CAT'', clue = ''pet''\<rparr>, row = 1, col = 0, direction = 0\<rparr>]
     [[None, None, None],
      [Some CHR ''C'', Some CHR ''A'', Some CHR ''T''],
      [None, None, None]]
   = Inr (Some \<lparr>entry = \<lparr>word = ''TAN'', clue = ''colour''\<rparr>, row = 0, col = 1, direction = 1\<rparr>,
          [[None, Some CHR ''T'', None],
           [Some CHR ''C'', Some CHR ''A'', Some CHR ''T''],
           [None, Some CHR ''N'', None]])"
  by (simp add: can_place_def ends_blocked_def side_blocked_def occupied_def cell_at_def
      list_item_def norm_index_def place_word_def set_cell_def)

text \<open>
  C7. \<open>can_place\<close> only reads the grid (it returns a result and no grid), and in the
  generation flow the grid changes only by a whole \<open>place_word\<close> after a True answer:
  \<open>try_place_word\<close> on a square grid either places nothing and returns the grid as it
  was, or returns the grid \<open>place_word\<close> makes from the original grid at a placement
  for which \<open>can_place\<close> returned True; the seed placement does the same on the
  initial grid.
\<close>

theorem placement_all_or_nothing:
  assumes "square grid"
  shows "written_or_untouched e grid (try_place_word e placed grid) \<and>
         (place_first first sz (initialise_grid sz) = Inr (initialise_grid sz, []) \<and>
            can_place (word first) (sz div 2) (max 0 ((sz - int (length (word first))) div 2)) 0
              (initialise_grid sz) = Inr False
          \<or> (\<exists>grid'.
               can_place (word first) (sz div 2) (max 0 ((sz - int (length (word first))) div 2)) 0
                 (initialise_grid sz) = Inr True \<and>
               place_word (word first) (sz div 2) (max 0 ((sz - int (length (word first))) div 2)) 0
                 (initialise_grid sz) = Inr grid' \<and>
               place_first first sz (initialise_grid sz)
                 = Inr (grid', [\<lparr>entry = first, row = sz div 2,
                                  col = max 0 ((sz - int (length (word first))) div 2),
                                  direction = 0\<rparr>])))"
  using try_place_word_outcome [OF assms] place_first_outcome by blast

theorem placement_all_or_nothing_witness:
  "square [[None, None, None],
           [Some CHR ''C'', Some CHR ''A'', Some CHR ''T''],
           [None, None, None]] \<and>
   written_or_untouched \<lparr>word = ''TAN'', clue = ''colour''\<rparr>
     [[None, None, None],
      [Some CHR ''C'', Some CHR ''A'', Some CHR ''T''],
      [None, None, None]]
     (Inr (Some \<lparr>entry = \<lparr>word = ''TAN'', clue = ''colour''\<rparr>, row = 0, col = 1, direction = 1\<rparr>,
          [[None, Some CHR ''T'', None],
           [Some CHR ''C'', Some CHR ''A'', Some CHR ''T''],
           [None, Some CHR ''N'', None]]))"
  using placement_all_or_nothing [OF demo_grid_square,
      of "\<lparr>word = ''TAN'', clue = ''colour''\<rparr>"
         "[\<lparr>entry = \<lparr>word = ''CAT'', clue = ''pet''\<rparr>, row = 1, col = 0, direction = 0\<rparr>]"]
    demo_grid_square
  unfolding demo_try_place_word by blast


section \<open>Words longer than the grid\<close>

lemma too_long_can_place:
  assumes "square grid" and "length grid < length wd" and "dir = 0 \<or> dir = 1"
  shows "can_place wd rw cl dir grid = Inr False"
proof -
  have ne: "wd \<noteq> []" using assms(2) by auto
  have "\<not> within_bounds wd rw cl dir grid"
    using within_bounds_length [of wd rw cl dir grid] assms(2) by auto
  then show ?thesis
    unfolding can_place_char [OF assms(1) ne assms(3)] by (simp add: can_place_spec_def)
qed

text \<open>
  C9. On a square grid of size N a word longer than N is refused by \<open>can_place\<close> at
  every start cell and in both directions; so \<open>try_place_word\<close> places nothing for it
  and leaves the grid as it was, and the seed placement skips it.
\<close>

theorem too_long_never_placed:
  assumes "square grid" and "length grid < length (word e)"
  shows "(dir = 0 \<or> dir = 1 \<longrightarrow> can_place (word e) rw cl dir grid = Inr False) \<and>
         try_place_word e placed grid = Inr (None, grid) \<and>
         (grid = initialise_grid sz \<longrightarrow> place_first e sz grid = Inr (grid, []))"
proof (intro conjI impI)
  assume "dir = 0 \<or> dir = 1"
  with assms show "can_place (word e) rw cl dir grid = Inr False" by (rule too_long_can_place)
next
  have no: "\<And>p. direction p = 0 \<or> direction p = 1 \<Longrightarrow>
      can_place (word e) (row p) (col p) (direction p) grid \<noteq> Inr True"
    using too_long_can_place [OF assms] by simp
  show "try_place_word e placed grid = Inr (None, grid)"
  proof (cases "try_place_word e placed grid")
    case (Inl err)
    then show ?thesis using try_place_word_outcome [OF assms(1), of e placed]
      by (simp add: written_or_untouched_def)
  next
    case (Inr res)
    then show ?thesis using try_place_word_outcome [OF assms(1), of e placed] no
      by (cases res; cases "fst res") (auto simp: written_or_untouched_def)
  qed
next
  assume g: "grid = initialise_grid sz"
  have "can_place (word e) (sz div 2) (max 0 ((sz - int (length (word e))) div 2)) 0 grid
        = Inr False"
    using too_long_can_place [OF assms] by simp
  then show "place_first e sz grid = Inr (grid, [])"
    by (simp add: place_first_def Let_def)
qed

theorem too_long_never_placed_witness:
  "square [[None, Some CHR ''B''], [None, None]] \<and>
   length [[None, Some CHR ''B''], [None, None :: cell]] < length (word \<lparr>word = ''ABC'', clue = ''x''\<rparr>) \<and>
   can_place ''ABC'' 0 0 0 [[None, Some CHR ''B''], [None, None]] = Inr False \<and>
   try_place_word \<lparr>word = ''ABC'', clue = ''x''\<rparr>
     [\<lparr>entry = \<lparr>word = ''B'', clue = ''y''\<rparr>, row = 0, col = 1, direction = 0\<rparr>]
     [[None, Some CHR ''B''], [None, None]]
   = Inr (None, [[None, Some CHR ''B''], [None, None]])"
proof -
  have len: "length [[None, Some CHR ''B''], [None, None :: cell]]
             < length (word \<lparr>word = ''ABC'', clue = ''x''\<rparr>)" by simp
  show ?thesis
    using too_long_never_placed [OF demo_square len, of 0 0 0
        "[\<lparr>entry = \<lparr>word = ''B'', clue = ''y''\<rparr>, row = 0, col = 1, direction = 0\<rparr>]"]
      demo_square
    by simp
qed

section \<open>Generation without a seed\<close>

lemma place_remaining_nothing_placed: "place_remaining rest [] grid = Inr (grid, [])"
  by (induction rest) simp_all

text \<open>
  C10. With no placed word \<open>try_place_word\<close> returns None and the grid as it was. So
  when the seed placement is refused, \<open>generate_crossword\<close> places no later candidate:
  it returns the initial grid, whose cells are all empty, and no placed word.
\<close>

theorem no_seed_no_crossword:
  "try_place_word e [] grid = Inr (None, grid) \<and>
   (sort_by_length (select_words shuffled max_words) = first # rest \<longrightarrow>
    can_place (word first) (sz div 2) (max 0 ((sz - int (length (word first))) div 2)) 0
      (initialise_grid sz) = Inr False \<longrightarrow>
    generate_crossword shuffled sz max_words = Inr (initialise_grid sz, []) \<and>
    (\<forall>line \<in> set (initialise_grid sz). \<forall>x \<in> set line. x = None))"
  by (simp add: generate_crossword_def generate_sorted_def place_first_def Let_def
      place_remaining_nothing_placed initialise_grid_def)


lemma demo_sorted:
  "sort_by_length (select_words [\<lparr>word = ''AB'', clue = ''y''\<rparr>, \<lparr>word = ''ABC'', clue = ''x''\<rparr>] 10)
   = [\<lparr>word = ''ABC'', clue = ''x''\<rparr>, \<lparr>word = ''AB'', clue = ''y''\<rparr>]"
  by (simp add: sort_by_length_def select_words_def)

lemma demo_initialise_grid: "initialise_grid 2 = [[None, None], [None, None]]"
  by (simp add: initialise_grid_def numeral_2_eq_2)

lemma demo_seed_refused:
  "can_place (word \<lparr>word = ''ABC'', clue = ''x''\<rparr>) (2 div 2)
     (max 0 ((2 - int (length (word \<lparr>word = ''ABC'', clue = ''x''\<rparr>))) div 2)) 0 (initialise_grid 2)
   = Inr False"
  by (simp add: demo_initialise_grid can_place_def side_blocked_def occupied_def cell_at_def
      list_item_def norm_index_def)

theorem no_seed_no_crossword_witness:
  "sort_by_length (select_words [\<lparr>word = ''AB'', clue = ''y''\<rparr>, \<lparr>word = ''ABC'', clue = ''x''\<rparr>] 10)
     = [\<lparr>word = ''ABC'', clue = ''x''\<rparr>, \<lparr>word = ''AB'', clue = ''y''\<rparr>] \<and>
   generate_crossword [\<lparr>word = ''AB'', clue = ''y''\<rparr>, \<lparr>word = ''ABC'', clue = ''x''\<rparr>] 2 10
     = Inr ([[None, None], [None, None]], [])"
  using no_seed_no_crossword [of _ _ "[\<lparr>word = ''AB'', clue = ''y''\<rparr>, \<lparr>word = ''ABC'', clue = ''x''\<rparr>]"
      10 "\<lparr>word = ''ABC'', clue = ''x''\<rparr>" "[\<lparr>word = ''AB'', clue = ''y''\<rparr>]" 2]
    demo_sorted demo_seed_refused demo_initialise_grid
  by simp

section \<open>The seed word\<close>

lemma sort_by_length_longest_first:
  assumes "sort_by_length selected = first # rest"
  shows "\<forall>e \<in> set selected. length (word e) \<le> length (word first)"
proof -
  have s: "sort_key (\<lambda>e. - int (length (word e))) selected = first # rest"
    using assms by (simp add: sort_by_length_def)
  have "sorted (map (\<lambda>e. - int (length (word e))) (sort_key (\<lambda>e. - int (length (word e))) selected))"
    by (rule sorted_sort_key)
  then have "sorted (map (\<lambda>e. - int (length (word e))) (first # rest))"
    by (simp only: s)
  then have "\<forall>e \<in> set (first # rest). length (word e) \<le> length (word first)"
    by auto
  moreover have "set (first # rest) = set selected"
    unfolding s [symmetric] by simp
  ultimately show ?thesis by blast
qed

text \<open>
  C4. For a grid size N >= 1 and a non-empty first word of the sorted list (no selected
  word is longer), the seed is tried horizontally at row N div 2 and column
  max 0 ((N - L) div 2); on the initial grid \<open>can_place\<close> accepts exactly when L <= N.
  When it refuses, the seed step returns the grid untouched with no placed word, and
  the run continues with the crossing loop: no other position is tried.
\<close>

theorem seed_placement:
  assumes "1 \<le> sz" and "word first \<noteq> []"
    and "sort_by_length (select_words shuffled max_words) = first # rest"
  shows "(\<forall>e \<in> set (select_words shuffled max_words). length (word e) \<le> length (word first)) \<and>
         can_place (word first) (sz div 2) (max 0 ((sz - int (length (word first))) div 2)) 0
           (initialise_grid sz) = Inr (int (length (word first)) \<le> sz) \<and>
         place_first first sz (initialise_grid sz) =
           (if int (length (word first)) \<le> sz
            then (case place_word (word first) (sz div 2)
                         (max 0 ((sz - int (length (word first))) div 2)) 0 (initialise_grid sz) of
                    Inl err \<Rightarrow> Inl err
                  | Inr grid' \<Rightarrow>
                      Inr (grid', [\<lparr>entry = first, row = sz div 2,
                                    col = max 0 ((sz - int (length (word first))) div 2),
                                    direction = 0\<rparr>]))
            else Inr (initialise_grid sz, [])) \<and>
         (\<exists>grid'. place_word (word first) (sz div 2)
                    (max 0 ((sz - int (length (word first))) div 2)) 0 (initialise_grid sz)
                  = Inr grid' \<or> \<not> int (length (word first)) \<le> sz) \<and>
         generate_crossword shuffled sz max_words =
           (case place_first first sz (initialise_grid sz) of
              Inl err \<Rightarrow> Inl err
            | Inr (grid', placed_words) \<Rightarrow> place_remaining rest placed_words grid')"
proof (intro conjI)
  show "\<forall>e \<in> set (select_words shuffled max_words). length (word e) \<le> length (word first)"
    using assms(3) by (rule sort_by_length_longest_first)
next
  show cp: "can_place (word first) (sz div 2) (max 0 ((sz - int (length (word first))) div 2)) 0
           (initialise_grid sz) = Inr (int (length (word first)) \<le> sz)"
    using assms(1,2) by (rule seed_can_place)
  show "place_first first sz (initialise_grid sz) =
           (if int (length (word first)) \<le> sz
            then (case place_word (word first) (sz div 2)
                         (max 0 ((sz - int (length (word first))) div 2)) 0 (initialise_grid sz) of
                    Inl err \<Rightarrow> Inl err
                  | Inr grid' \<Rightarrow>
                      Inr (grid', [\<lparr>entry = first, row = sz div 2,
                                    col = max 0 ((sz - int (length (word first))) div 2),
                                    direction = 0\<rparr>]))
            else Inr (initialise_grid sz, []))"
    by (simp add: place_first_def Let_def cp split: sum.splits)
  show "\<exists>grid'. place_word (word first) (sz div 2)
                    (max 0 ((sz - int (length (word first))) div 2)) 0 (initialise_grid sz)
                  = Inr grid' \<or> \<not> int (length (word first)) \<le> sz"
  proof (cases "int (length (word first)) \<le> sz")
    case True
    then have "can_place (word first) (sz div 2) (max 0 ((sz - int (length (word first))) div 2)) 0
           (initialise_grid sz) = Inr True" using cp by simp
    from can_place_place_word [OF _ square_initialise_grid this]
    show ?thesis by auto
  next
    case False
    then show ?thesis by simp
  qed
next
  show "generate_crossword shuffled sz max_words =
           (case place_first first sz (initialise_grid sz) of
              Inl err \<Rightarrow> Inl err
            | Inr (grid', placed_words) \<Rightarrow> place_remaining rest placed_words grid')"
    by (simp add: generate_crossword_def generate_sorted_def assms(3))
qed


theorem seed_placement_witness:
  "(1::int) \<le> 13 \<and> word \<lparr>word = ''PYTHON'', clue = ''a''\<rparr> \<noteq> [] \<and>
   sort_by_length (select_words [\<lparr>word = ''JAVA'', clue = ''b''\<rparr>, \<lparr>word = ''PYTHON'', clue = ''a''\<rparr>,
                                 \<lparr>word = ''RUST'', clue = ''c''\<rparr>] 10)
     = [\<lparr>word = ''PYTHON'', clue = ''a''\<rparr>, \<lparr>word = ''JAVA'', clue = ''b''\<rparr>,
        \<lparr>word = ''RUST'', clue = ''c''\<rparr>] \<and>
   can_place ''PYTHON'' 6 3 0 (initialise_grid 13) = Inr True"
proof -
  have n: "(1::int) \<le> 13" by simp
  have w: "word \<lparr>word = ''PYTHON'', clue = ''a''\<rparr> \<noteq> []" by simp
  have s: "sort_by_length (select_words [\<lparr>word = ''JAVA'', clue = ''b''\<rparr>, \<lparr>word = ''PYTHON'', clue = ''a''\<rparr>,
                                 \<lparr>word = ''RUST'', clue = ''c''\<rparr>] 10)
     = \<lparr>word = ''PYTHON'', clue = ''a''\<rparr> # [\<lparr>word = ''JAVA'', clue = ''b''\<rparr>,
        \<lparr>word = ''RUST'', clue = ''c''\<rparr>]"
    by (simp add: sort_by_length_def select_words_def)
  have "can_place ''PYTHON'' 6 3 0 (initialise_grid 13) = Inr True"
    using seed_placement [OF n w s] by simp
  then show ?thesis using s by simp
qed

section \<open>try\_place\_word is the first-fit search\<close>

lemma first_fit_among_Nil: "first_fit_among e grid [] = Inr (None, grid)"
  by (simp add: first_fit_among_def)

lemma find_over_append:
  "find P (xs @ ys) = (case find P xs of None \<Rightarrow> find P ys | Some x \<Rightarrow> Some x)"
  by (induction xs) simp_all

lemma first_fit_among_append:
  "first_fit_among e grid (xs @ ys) =
     (case first_fit_among e grid xs of
        Inl err \<Rightarrow> Inl err
      | Inr (Some p, grid') \<Rightarrow> Inr (Some p, grid')
      | Inr (None, grid') \<Rightarrow> first_fit_among e grid' ys)"
  by (auto simp: first_fit_among_def find_over_append split: option.splits sum.splits)

lemma first_fit_among_None:
  "first_fit_among e grid cs = Inr (None, grid') \<Longrightarrow> grid' = grid"
  by (auto simp: first_fit_among_def split: option.splits sum.splits)

lemma first_fit_among_Cons:
  "first_fit_among e grid ((rw, cl, dir) # cs) =
     (if can_place (word e) rw cl dir grid = Inr True
      then (case place_word (word e) rw cl dir grid of
              Inl err \<Rightarrow> Inl err
            | Inr grid' \<Rightarrow> Inr (Some \<lparr>entry = e, row = rw, col = cl, direction = dir\<rparr>, grid'))
      else first_fit_among e grid cs)"
  by (simp add: first_fit_among_def)

lemma cross_letters_first_fit:
  assumes sq: "square grid" and d: "direction pw = 0 \<or> direction pw = 1"
  shows "rest = drop j (word e) \<Longrightarrow>
     cross_letters e pw (int i) pw_ch rest (int j) grid =
     first_fit_among e grid
       (concat (map (\<lambda>j'. if pw_ch = word e ! j' then crossing_of pw i j' else [])
                    [j..<length (word e)]))"
proof (induction rest arbitrary: j)
  case Nil
  then have "length (word e) \<le> j" by simp
  then show ?case by (simp add: first_fit_among_Nil)
next
  case (Cons ch rest)
  have j: "j < length (word e)" using Cons.prems by (cases "j < length (word e)") auto
  then have ne: "word e \<noteq> []" by auto
  have ch: "word e ! j = ch" and rest: "rest = drop (Suc j) (word e)"
    using Cons.prems j by (simp_all add: Cons_nth_drop_Suc [symmetric])
  have upt: "[j..<length (word e)] = j # [Suc j..<length (word e)]"
    using j by (simp add: upt_conv_Cons)
  have step: "int j + 1 = int (Suc j)" by simp
  note IH = Cons.IH [OF rest]
  show ?case
  proof (cases "pw_ch = ch")
    case False
    then show ?thesis using IH ch by (simp add: upt step)
  next
    case True
    let ?rw = "if direction pw = 0 then row pw - int j else row pw + int i"
    let ?cl = "if direction pw = 0 then col pw + int i else col pw - int j"
    let ?dir = "if direction pw = 0 then 1 else (0::int)"
    have c: "crossing_of pw i j = [(?rw, ?cl, ?dir)]"
      using d by (auto simp: crossing_of_def)
    have dd: "?dir = 0 \<or> ?dir = 1" by simp
    from can_place_returns [OF sq ne dd, of ?rw ?cl]
    show ?thesis
    proof
      assume yes: "can_place (word e) ?rw ?cl ?dir grid = Inr True"
      show ?thesis
        unfolding cross_letters.simps Let_def upt
        using True ch yes by (simp add: c first_fit_among_append first_fit_among_Cons
            split: sum.splits)
    next
      assume no: "can_place (word e) ?rw ?cl ?dir grid = Inr False"
      show ?thesis
        unfolding cross_letters.simps Let_def upt
        using True ch no IH
        by (simp add: c first_fit_among_append first_fit_among_Cons first_fit_among_Nil step)
    qed
  qed
qed


lemma cross_placed_first_fit:
  assumes sq: "square grid" and d: "direction pw = 0 \<or> direction pw = 1"
  shows "rest = drop i pww \<Longrightarrow>
     cross_placed e pw rest (int i) grid =
     first_fit_among e grid
       (concat (map (\<lambda>i'.
          concat (map (\<lambda>j. if pww ! i' = word e ! j then crossing_of pw i' j else [])
                      [0..<length (word e)]))
          [i..<length pww]))"
proof (induction rest arbitrary: i)
  case Nil
  then have "length pww \<le> i" by simp
  then show ?case by (simp add: first_fit_among_Nil)
next
  case (Cons pw_ch rest)
  have i: "i < length pww" using Cons.prems by (cases "i < length pww") auto
  have ch: "pww ! i = pw_ch" and rest: "rest = drop (Suc i) pww"
    using Cons.prems i by (simp_all add: Cons_nth_drop_Suc [symmetric])
  have upt: "[i..<length pww] = i # [Suc i..<length pww]"
    using i by (simp add: upt_conv_Cons)
  have step: "int i + 1 = int (Suc i)" by simp
  have inner: "cross_letters e pw (int i) pw_ch (word e) 0 grid =
     first_fit_among e grid
       (concat (map (\<lambda>j. if pww ! i = word e ! j then crossing_of pw i j else [])
                    [0..<length (word e)]))"
    using cross_letters_first_fit [OF sq d, of "word e" 0 e i pw_ch] ch by simp
  note outcome = cross_placed_outcome [OF sq, of e pw "pw_ch # rest" "int i"]
  show ?case
    unfolding cross_placed.simps upt inner step
    using Cons.IH [OF rest]
    by (auto simp: first_fit_among_append dest!: first_fit_among_None
        split: sum.splits option.splits prod.splits)
qed

lemma try_place_word_first_fit:
  assumes sq: "square grid" and d: "\<forall>pw \<in> set placed. direction pw = 0 \<or> direction pw = 1"
  shows "try_place_word e placed grid = first_fit e placed grid"
  using d
proof (induction placed)
  case Nil
  show ?case by (simp add: first_fit_def crossings_def first_fit_among_Nil)
next
  case (Cons pw placed)
  have dpw: "direction pw = 0 \<or> direction pw = 1" using Cons.prems by simp
  have IH: "try_place_word e placed grid = first_fit e placed grid"
    using Cons.IH Cons.prems by simp
  have inner: "cross_placed e pw (word (entry pw)) 0 grid =
     first_fit_among e grid
       (concat (map (\<lambda>i.
          concat (map (\<lambda>j. if word (entry pw) ! i = word e ! j then crossing_of pw i j else [])
                      [0..<length (word e)]))
          [0..<length (word (entry pw))]))"
    using cross_placed_first_fit [OF sq dpw, of "word (entry pw)" 0 "word (entry pw)" e] by simp
  show ?case
    unfolding try_place_word.simps inner
    using IH
    by (auto simp: first_fit_def crossings_def first_fit_among_append
        dest!: first_fit_among_None split: sum.splits option.splits prod.splits)
qed


text \<open>
  C2. On a square grid, with every placed word horizontal or vertical,
  \<open>try_place_word\<close> raises nothing and returns what the first-fit search of the
  specification returns: it goes through the crossings in the order placed word (oldest
  first), letter index of the placed word, letter index of the candidate, takes the
  first one \<open>can_place\<close> accepts, writes the word there with \<open>place_word\<close> and returns
  that PlacedWord; with no accepted crossing it returns None and the grid as it was.
\<close>

theorem try_place_word_is_first_fit:
  assumes "square grid" and "\<forall>pw \<in> set placed. direction pw = 0 \<or> direction pw = 1"
  shows "try_place_word e placed grid = first_fit e placed grid \<and>
         (\<exists>res. try_place_word e placed grid = Inr res)"
proof
  show "try_place_word e placed grid = first_fit e placed grid"
    using assms by (rule try_place_word_first_fit)
  show "\<exists>res. try_place_word e placed grid = Inr res"
    using try_place_word_outcome [OF assms(1), of e placed]
    by (cases "try_place_word e placed grid") (simp_all add: written_or_untouched_def)
qed

theorem try_place_word_is_first_fit_witness:
  "square [[None, None, None],
           [Some CHR ''C'', Some CHR ''A'', Some CHR ''T''],
           [None, None, None]] \<and>
   direction \<lparr>entry = \<lparr>word = ''CAT'', clue = ''pet''\<rparr>, row = 1, col = 0, direction = 0\<rparr> = 0 \<and>
   crossings ''TAN'' [\<lparr>entry = \<lparr>word = ''CAT'', clue = ''pet''\<rparr>, row = 1, col = 0, direction = 0\<rparr>]
     = [(0, 1, 1), (1, 2, 1)] \<and>
   first_fit \<lparr>word = ''TAN'', clue = ''colour''\<rparr>
     [\<lparr>entry = \<lparr>word = ''CAT'', clue = ''pet''\<rparr>, row = 1, col = 0, direction = 0\<rparr>]
     [[None, None, None],
      [Some CHR ''C'', Some CHR ''A'', Some CHR ''T''],
      [None, None, None]]
   = Inr (Some \<lparr>entry = \<lparr>word = ''TAN'', clue = ''colour''\<rparr>, row = 0, col = 1, direction = 1\<rparr>,
          [[None, Some CHR ''T'', None],
           [Some CHR ''C'', Some CHR ''A'', Some CHR ''T''],
           [None, Some CHR ''N'', None]])"
proof -
  have dirs: "\<forall>pw \<in> set [\<lparr>entry = \<lparr>word = ''CAT'', clue = ''pet''\<rparr>, row = 1, col = 0, direction = 0\<rparr>].
      direction pw = 0 \<or> direction pw = 1" by simp
  have cr: "crossings ''TAN'' [\<lparr>entry = \<lparr>word = ''CAT'', clue = ''pet''\<rparr>, row = 1, col = 0, direction = 0\<rparr>]
     = [(0, 1, 1), (1, 2, 1)]"
    by (simp add: crossings_def crossing_of_def upt_rec)
  show ?thesis
    using try_place_word_is_first_fit [OF demo_grid_square dirs, of "\<lparr>word = ''TAN'', clue = ''colour''\<rparr>"]
      demo_grid_square cr
    unfolding demo_try_place_word by simp
qed

section \<open>The invariant of generation\<close>

lemma covers_new_word:
  assumes "dir = 0 \<or> dir = 1" and "square grid"
    and "can_place (word e) rw cl dir grid = Inr True"
    and "place_word (word e) rw cl dir grid = Inr grid'"
  shows "generation_invariant grid' [\<lparr>entry = e, row = rw, col = cl, direction = dir\<rparr>] \<and>
         length grid' = length grid \<and>
         (\<forall>r c. letter_at grid r c \<noteq> None \<longrightarrow> letter_at grid' r c = letter_at grid r c)"
  using can_place_place_word [OF assms(1,2,3)] assms(1,4)
  by (auto simp: generation_invariant_def covers_def placed_cell_def)

lemma covers_kept:
  assumes "covers grid pw" and "length grid' = length grid"
    and "\<forall>r c. letter_at grid r c \<noteq> None \<longrightarrow> letter_at grid' r c = letter_at grid r c"
  shows "covers grid' pw"
  using assms unfolding covers_def on_grid_def by auto

lemma invariant_seed:
  "\<exists>grid placed. place_first first sz (initialise_grid sz) = Inr (grid, placed) \<and>
       generation_invariant grid placed"
proof -
  from place_first_outcome [of first sz]
  show ?thesis
  proof (elim disjE conjE exE)
    assume "place_first first sz (initialise_grid sz) = Inr (initialise_grid sz, [])"
    then show ?thesis
      by (simp add: generation_invariant_def square_initialise_grid)
  next
    fix grid'
    assume cp: "can_place (word first) (sz div 2) (max 0 ((sz - int (length (word first))) div 2)) 0
          (initialise_grid sz) = Inr True"
      and pw: "place_word (word first) (sz div 2) (max 0 ((sz - int (length (word first))) div 2)) 0
          (initialise_grid sz) = Inr grid'"
      and pf: "place_first first sz (initialise_grid sz)
          = Inr (grid', [\<lparr>entry = first, row = sz div 2,
                           col = max 0 ((sz - int (length (word first))) div 2),
                           direction = 0\<rparr>])"
    from covers_new_word [OF _ square_initialise_grid cp pw] pf
    show ?thesis by auto
  qed
qed

lemma invariant_step:
  assumes inv: "generation_invariant grid placed"
  shows "(try_place_word e placed grid = Inr (None, grid)) \<or>
         (\<exists>p grid'. try_place_word e placed grid = Inr (Some p, grid') \<and>
                    generation_invariant grid' (placed @ [p]))"
proof -
  have sq: "square grid" using inv by (simp add: generation_invariant_def)
  note out = try_place_word_outcome [OF sq, of e placed]
  show ?thesis
  proof (cases "try_place_word e placed grid")
    case (Inl err)
    then show ?thesis using out by (simp add: written_or_untouched_def)
  next
    case (Inr res)
    obtain po grid' where res: "res = (po, grid')" by (cases res)
    show ?thesis
    proof (cases po)
      case None
      then show ?thesis using out Inr res by (simp add: written_or_untouched_def)
    next
      case (Some p)
      then have p: "p = \<lparr>entry = e, row = row p, col = col p, direction = direction p\<rparr>"
        and d: "direction p = 0 \<or> direction p = 1"
        and cp: "can_place (word e) (row p) (col p) (direction p) grid = Inr True"
        and pw: "place_word (word e) (row p) (col p) (direction p) grid = Inr grid'"
        using out Inr res by (simp_all add: written_or_untouched_def)
      from covers_new_word [OF d sq cp pw]
      have new: "generation_invariant grid' [p]" and len: "length grid' = length grid"
        and keep: "\<forall>r c. letter_at grid r c \<noteq> None \<longrightarrow> letter_at grid' r c = letter_at grid r c"
        using p by simp_all
      have "\<forall>q \<in> set placed. covers grid' q"
        using inv covers_kept [OF _ len keep] by (auto simp: generation_invariant_def)
      then have "generation_invariant grid' (placed @ [p])"
        using new by (simp add: generation_invariant_def)
      then show ?thesis using Inr res Some by simp
    qed
  qed
qed

lemma invariant_place_remaining:
  "generation_invariant grid placed \<Longrightarrow>
   \<exists>grid' placed'. place_remaining es placed grid = Inr (grid', placed') \<and>
       generation_invariant grid' placed'"
proof (induction es arbitrary: grid placed)
  case Nil
  then show ?case by simp
next
  case (Cons e es)
  from invariant_step [OF Cons.prems, of e]
  show ?case
  proof (elim disjE exE conjE)
    assume "try_place_word e placed grid = Inr (None, grid)"
    then show ?thesis using Cons.IH [OF Cons.prems] by simp
  next
    fix p grid'
    assume "try_place_word e placed grid = Inr (Some p, grid')"
      and "generation_invariant grid' (placed @ [p])"
    then show ?thesis using Cons.IH [of grid' "placed @ [p]"] by simp
  qed
qed

lemma invariant_state_after:
  "\<exists>grid placed. state_after selected sz k = Inr (grid, placed) \<and>
       generation_invariant grid placed"
proof (cases selected)
  case Nil
  then show ?thesis
    by (simp add: state_after_def generation_invariant_def square_initialise_grid)
next
  case (Cons first rest)
  obtain g p where seed: "place_first first sz (initialise_grid sz) = Inr (g, p)"
    and inv: "generation_invariant g p"
    using invariant_seed by blast
  from invariant_place_remaining [OF inv, of "take k rest"]
  show ?thesis using Cons seed by (simp add: state_after_def)
qed

lemma generate_crossword_state_after:
  "generate_crossword shuffled sz max_words
   = state_after (sort_by_length (select_words shuffled max_words)) sz
       (length (sort_by_length (select_words shuffled max_words)))"
  by (simp add: generate_crossword_def generate_sorted_def state_after_def
      split: list.splits sum.splits)

lemma covers_reads_back:
  assumes "square grid" and "covers grid pw"
  shows "reads_back grid pw"
proof -
  have "read_word grid (row pw) (col pw) (direction pw) (length (word (entry pw)))
        = map (\<lambda>ch. Inr (Some ch)) (word (entry pw))"
  proof (rule nth_equalityI)
    show "length (read_word grid (row pw) (col pw) (direction pw) (length (word (entry pw))))
          = length (map (\<lambda>ch. Inr (Some ch)) (word (entry pw)))"
      by (simp add: read_word_def)
  next
    fix i assume "i < length (read_word grid (row pw) (col pw) (direction pw) (length (word (entry pw))))"
    then have i: "i < length (word (entry pw))" by (simp add: read_word_def)
    then have og: "on_grid grid (fst (placed_cell pw i)) (snd (placed_cell pw i))"
      and lt: "letter_at grid (fst (placed_cell pw i)) (snd (placed_cell pw i)) = Some (word (entry pw) ! i)"
      using assms(2) by (simp_all add: covers_def)
    have "cell_at grid (fst (placed_cell pw i)) (snd (placed_cell pw i))
          = Inr (Some (word (entry pw) ! i))"
      using cell_at_on_grid [OF assms(1) og] lt by simp
    then show "read_word grid (row pw) (col pw) (direction pw) (length (word (entry pw))) ! i
               = map (\<lambda>ch. Inr (Some ch)) (word (entry pw)) ! i"
      using i by (auto simp: read_word_def placed_cell_def split: if_splits)
  qed
  then show ?thesis using assms(2) by (simp add: reads_back_def covers_def)
qed

lemma covers_agree:
  assumes "\<forall>pw \<in> set placed. covers grid pw"
  shows "agree_on_shared placed"
  unfolding agree_on_shared_def
proof (intro ballI impI)
  fix p q i j
  assume p: "p \<in> set placed" and q: "q \<in> set placed"
    and i: "i \<in> set [0..<length (word (entry p))]" and j: "j \<in> set [0..<length (word (entry q))]"
    and same: "placed_cell p i = placed_cell q j"
  have "letter_at grid (fst (placed_cell p i)) (snd (placed_cell p i)) = Some (word (entry p) ! i)"
    using assms p i by (simp add: covers_def)
  moreover have "letter_at grid (fst (placed_cell q j)) (snd (placed_cell q j)) = Some (word (entry q) ! j)"
    using assms q j by (simp add: covers_def)
  ultimately show "word (entry p) ! i = word (entry q) ! j" using same by simp
qed


lemma demo_state_after:
  "state_after [\<lparr>word = ''CAT'', clue = ''pet''\<rparr>, \<lparr>word = ''TAN'', clue = ''colour''\<rparr>] 3 1
   = Inr ([[None, Some CHR ''T'', None],
           [Some CHR ''C'', Some CHR ''A'', Some CHR ''T''],
           [None, Some CHR ''N'', None]],
          [\<lparr>entry = \<lparr>word = ''CAT'', clue = ''pet''\<rparr>, row = 1, col = 0, direction = 0\<rparr>,
           \<lparr>entry = \<lparr>word = ''TAN'', clue = ''colour''\<rparr>, row = 0, col = 1, direction = 1\<rparr>])"
proof -
  have g0: "initialise_grid 3 = [[None, None, None], [None, None, None], [None, None, None]]"
    by (simp add: initialise_grid_def numeral_3_eq_3)
  have seed: "place_first \<lparr>word = ''CAT'', clue = ''pet''\<rparr> 3
                [[None, None, None], [None, None, None], [None, None, None]]
     = Inr ([[None, None, None],
             [Some CHR ''C'', Some CHR ''A'', Some CHR ''T''],
             [None, None, None]],
            [\<lparr>entry = \<lparr>word = ''CAT'', clue = ''pet''\<rparr>, row = 1, col = 0, direction = 0\<rparr>])"
    by (simp add: place_first_def can_place_def ends_blocked_def side_blocked_def occupied_def
        cell_at_def list_item_def norm_index_def place_word_def set_cell_def)
  show ?thesis
    by (simp add: state_after_def g0 seed demo_try_place_word del: try_place_word.simps)
qed

text \<open>
  C3. For every sorted candidate list, grid size and number \<open>k\<close> of iterations of the
  crossing loop, the run reaches that point without raising, and there every placed
  word reads back from the grid: from its anchor along its direction the cells are on
  the grid and hold exactly its letters. Hence two placed words that cover a common
  cell have the same letter there. \<open>generate_crossword\<close> returns the last of these
  states.
\<close>

theorem placed_words_read_back:
  "(\<exists>grid placed. state_after selected sz k = Inr (grid, placed) \<and>
       (\<forall>pw \<in> set placed. reads_back grid pw) \<and> agree_on_shared placed) \<and>
   generate_crossword shuffled sz max_words
     = state_after (sort_by_length (select_words shuffled max_words)) sz
         (length (sort_by_length (select_words shuffled max_words)))"
proof
  obtain grid placed where st: "state_after selected sz k = Inr (grid, placed)"
    and inv: "generation_invariant grid placed"
    using invariant_state_after by blast
  have sq: "square grid" and cov: "\<forall>pw \<in> set placed. covers grid pw"
    using inv by (simp_all add: generation_invariant_def)
  have "\<forall>pw \<in> set placed. reads_back grid pw"
    using covers_reads_back [OF sq] cov by blast
  moreover have "agree_on_shared placed" using cov by (rule covers_agree)
  ultimately show "\<exists>grid placed. state_after selected sz k = Inr (grid, placed) \<and>
       (\<forall>pw \<in> set placed. reads_back grid pw) \<and> agree_on_shared placed"
    using st by blast
next
  show "generate_crossword shuffled sz max_words
     = state_after (sort_by_length (select_words shuffled max_words)) sz
         (length (sort_by_length (select_words shuffled max_words)))"
    by (rule generate_crossword_state_after)
qed

theorem placed_words_read_back_witness:
  "state_after [\<lparr>word = ''CAT'', clue = ''pet''\<rparr>, \<lparr>word = ''TAN'', clue = ''colour''\<rparr>] 3 1
   = Inr ([[None, Some CHR ''T'', None],
           [Some CHR ''C'', Some CHR ''A'', Some CHR ''T''],
           [None, Some CHR ''N'', None]],
          [\<lparr>entry = \<lparr>word = ''CAT'', clue = ''pet''\<rparr>, row = 1, col = 0, direction = 0\<rparr>,
           \<lparr>entry = \<lparr>word = ''TAN'', clue = ''colour''\<rparr>, row = 0, col = 1, direction = 1\<rparr>]) \<and>
   reads_back [[None, Some CHR ''T'', None],
               [Some CHR ''C'', Some CHR ''A'', Some CHR ''T''],
               [None, Some CHR ''N'', None]]
     \<lparr>entry = \<lparr>word = ''TAN'', clue = ''colour''\<rparr>, row = 0, col = 1, direction = 1\<rparr> \<and>
   agree_on_shared
     [\<lparr>entry = \<lparr>word = ''CAT'', clue = ''pet''\<rparr>, row = 1, col = 0, direction = 0\<rparr>,
      \<lparr>entry = \<lparr>word = ''TAN'', clue = ''colour''\<rparr>, row = 0, col = 1, direction = 1\<rparr>]"
  using placed_words_read_back
    [of "[\<lparr>word = ''CAT'', clue = ''pet''\<rparr>, \<lparr>word = ''TAN'', clue = ''colour''\<rparr>]" 3 1]
  unfolding demo_state_after by simp

section \<open>number\_grid on a square grid\<close>

lemma start_across_on_grid:
  assumes "square grid" "on_grid grid r c"
  shows "start_across grid r c = Inr (across_start grid (r, c))"
proof -
  have left: "(if c = 0 then Inr True
         else (case cell_at grid r (c - 1) of Inl e \<Rightarrow> Inl e | Inr x \<Rightarrow> Inr (x = None)))
        = Inr (letter_at grid r (c - 1) = None)"
    using assms by (auto simp: cell_at_on_grid on_grid_def letter_at_off)
  have right: "(if c + 1 < int (length grid) then occupied grid r (c + 1) else Inr False)
        = Inr (letter_at grid r (c + 1) \<noteq> None)"
    using assms by (auto simp: occupied_on_grid on_grid_def letter_at_off)
  show ?thesis
    unfolding start_across_def left right by (auto simp: across_start_def split: bool.splits)
qed

lemma start_down_on_grid:
  assumes "square grid" "on_grid grid r c"
  shows "start_down grid r c = Inr (down_start grid (r, c))"
proof -
  have up: "(if r = 0 then Inr True
         else (case cell_at grid (r - 1) c of Inl e \<Rightarrow> Inl e | Inr x \<Rightarrow> Inr (x = None)))
        = Inr (letter_at grid (r - 1) c = None)"
    using assms by (auto simp: cell_at_on_grid on_grid_def letter_at_off)
  have below: "(if r + 1 < int (length grid) then occupied grid (r + 1) c else Inr False)
        = Inr (letter_at grid (r + 1) c \<noteq> None)"
    using assms by (auto simp: occupied_on_grid on_grid_def letter_at_off)
  show ?thesis
    unfolding start_down_def up below by (auto simp: down_start_def split: bool.splits)
qed

lemma number_cell_on_grid:
  assumes "square grid" "on_grid grid (fst p) (snd p)"
  shows "number_cell grid placed_words p st =
         Inr (if numbered grid p then assign placed_words grid p st else st)"
proof -
  obtain r c where p: "p = (r, c)" by (cases p)
  obtain n numbers across down where st: "st = (n, numbers, across, down)" by (cases st)
  have og: "on_grid grid r c" using assms(2) p by simp
  show ?thesis
    unfolding p st number_cell.simps cell_at_on_grid [OF assms(1) og]
      start_across_on_grid [OF assms(1) og] start_down_on_grid [OF assms(1) og]
    by (cases "letter_at grid r c") (auto simp: numbered_def)
qed

lemma number_cells_on_grid:
  assumes "square grid"
  shows "\<forall>p \<in> set ps. on_grid grid (fst p) (snd p) \<Longrightarrow>
         number_cells grid placed_words ps st =
         Inr (fold (assign placed_words grid) (filter (numbered grid) ps) st)"
proof (induction ps arbitrary: st)
  case Nil
  show ?case by simp
next
  case (Cons p ps)
  have og: "on_grid grid (fst p) (snd p)" using Cons.prems by simp
  show ?case
    using Cons.IH Cons.prems
    by (simp add: number_cell_on_grid [OF assms og])
qed

lemma scan_order_on_grid: "\<forall>p \<in> set (scan_order grid). on_grid grid (fst p) (snd p)"
  by (auto simp: scan_order_def on_grid_def)

lemma number_state_square:
  assumes "square grid"
  shows "number_state grid placed_words =
         Inr (fold (assign placed_words grid) (numbered_cells grid)
                (1, Map.empty, Map.empty, Map.empty))"
  unfolding number_state_def numbered_cells_def
  using scan_order_on_grid by (rule number_cells_on_grid [OF assms])


lemma bind_clue_anchored:
  "bind_clue dir r c n placed m =
     (case anchored_clue dir (r, c) placed of None \<Rightarrow> m | Some s \<Rightarrow> m(n \<mapsto> s))"
  by (induction placed) (auto simp: anchored_clue_def)

lemma nth_shift_Cons:
  assumes "n0 + 1 \<le> (k::int)"
  shows "(p # ps) ! nat (k - n0) = ps ! nat (k - (n0 + 1))"
proof -
  have "nat (k - n0) = Suc (nat (k - (n0 + 1)))" using assms by linarith
  then show ?thesis by simp
qed

lemma fold_assign:
  "\<exists>numbers' across' down'.
     fold (assign placed grid) ps (n0, numbers0, across0, down0)
       = (n0 + int (length ps), numbers', across', down') \<and>
     (\<forall>k. numbers' k =
        (if n0 \<le> k \<and> k < n0 + int (length ps) then Some (ps ! nat (k - n0)) else numbers0 k)) \<and>
     (\<forall>k. across' k =
        (if n0 \<le> k \<and> k < n0 + int (length ps) \<and> across_start grid (ps ! nat (k - n0))
         then (case anchored_clue 0 (ps ! nat (k - n0)) placed of
                 None \<Rightarrow> across0 k | Some s \<Rightarrow> Some s)
         else across0 k)) \<and>
     (\<forall>k. down' k =
        (if n0 \<le> k \<and> k < n0 + int (length ps) \<and> down_start grid (ps ! nat (k - n0))
         then (case anchored_clue 1 (ps ! nat (k - n0)) placed of
                 None \<Rightarrow> down0 k | Some s \<Rightarrow> Some s)
         else down0 k))"
proof (induction ps arbitrary: n0 numbers0 across0 down0)
  case Nil
  show ?case by auto
next
  case (Cons p ps)
  let ?A = "if across_start grid p then bind_clue 0 (fst p) (snd p) n0 placed across0 else across0"
  let ?D = "if down_start grid p then bind_clue 1 (fst p) (snd p) n0 placed down0 else down0"
  obtain numbers' across' down' where
    run: "fold (assign placed grid) ps (n0 + 1, numbers0(n0 \<mapsto> p), ?A, ?D)
           = (n0 + 1 + int (length ps), numbers', across', down')"
    and nu: "\<And>k. numbers' k =
        (if n0 + 1 \<le> k \<and> k < n0 + 1 + int (length ps) then Some (ps ! nat (k - (n0 + 1)))
         else (numbers0(n0 \<mapsto> p)) k)"
    and ac: "\<And>k. across' k =
        (if n0 + 1 \<le> k \<and> k < n0 + 1 + int (length ps) \<and> across_start grid (ps ! nat (k - (n0 + 1)))
         then (case anchored_clue 0 (ps ! nat (k - (n0 + 1))) placed of
                 None \<Rightarrow> ?A k | Some s \<Rightarrow> Some s)
         else ?A k)"
    and dn: "\<And>k. down' k =
        (if n0 + 1 \<le> k \<and> k < n0 + 1 + int (length ps) \<and> down_start grid (ps ! nat (k - (n0 + 1)))
         then (case anchored_clue 1 (ps ! nat (k - (n0 + 1))) placed of
                 None \<Rightarrow> ?D k | Some s \<Rightarrow> Some s)
         else ?D k)"
    using Cons.IH [of "n0 + 1" "numbers0(n0 \<mapsto> p)" ?A ?D] by blast
  have run': "fold (assign placed grid) (p # ps) (n0, numbers0, across0, down0)
           = (n0 + int (length (p # ps)), numbers', across', down')"
    using run by (simp add: add.assoc add.commute)
  have nu': "numbers' k =
        (if n0 \<le> k \<and> k < n0 + int (length (p # ps)) then Some ((p # ps) ! nat (k - n0))
         else numbers0 k)" for k
  proof (cases "n0 + 1 \<le> k")
    case True
    then show ?thesis using nu [of k] nth_shift_Cons [OF True, of p ps] by auto
  next
    case False
    then show ?thesis using nu [of k] by auto
  qed
  have pair: "(fst p, snd p) = p" by simp
  have ac': "across' k =
        (if n0 \<le> k \<and> k < n0 + int (length (p # ps)) \<and> across_start grid ((p # ps) ! nat (k - n0))
         then (case anchored_clue 0 ((p # ps) ! nat (k - n0)) placed of
                 None \<Rightarrow> across0 k | Some s \<Rightarrow> Some s)
         else across0 k)" for k
  proof (cases "n0 + 1 \<le> k")
    case True
    then have "k \<noteq> n0" by simp
    then have same: "?A k = across0 k"
      by (simp add: bind_clue_anchored split: option.splits)
    show ?thesis
      unfolding ac [of k] same nth_shift_Cons [OF True, of p ps] using True by auto
  next
    case False
    then show ?thesis using ac [of k]
      by (auto simp: bind_clue_anchored pair split: option.splits)
  qed
  have dn': "down' k =
        (if n0 \<le> k \<and> k < n0 + int (length (p # ps)) \<and> down_start grid ((p # ps) ! nat (k - n0))
         then (case anchored_clue 1 ((p # ps) ! nat (k - n0)) placed of
                 None \<Rightarrow> down0 k | Some s \<Rightarrow> Some s)
         else down0 k)" for k
  proof (cases "n0 + 1 \<le> k")
    case True
    then have "k \<noteq> n0" by simp
    then have same: "?D k = down0 k"
      by (simp add: bind_clue_anchored split: option.splits)
    show ?thesis
      unfolding dn [of k] same nth_shift_Cons [OF True, of p ps] using True by auto
  next
    case False
    then show ?thesis using dn [of k]
      by (auto simp: bind_clue_anchored pair split: option.splits)
  qed
  show ?case using run' nu' ac' dn' by blast
qed


lemma number_state_result:
  assumes "square grid"
  shows "\<exists>numbers across down.
     number_state grid placed
       = Inr (1 + int (length (numbered_cells grid)), numbers, across, down) \<and>
     (\<forall>n. numbers n =
        (if 1 \<le> n \<and> n \<le> int (length (numbered_cells grid))
         then Some (numbered_cells grid ! nat (n - 1)) else None)) \<and>
     (\<forall>n. across n =
        (if 1 \<le> n \<and> n \<le> int (length (numbered_cells grid)) \<and>
            across_start grid (numbered_cells grid ! nat (n - 1))
         then anchored_clue 0 (numbered_cells grid ! nat (n - 1)) placed else None)) \<and>
     (\<forall>n. down n =
        (if 1 \<le> n \<and> n \<le> int (length (numbered_cells grid)) \<and>
            down_start grid (numbered_cells grid ! nat (n - 1))
         then anchored_clue 1 (numbered_cells grid ! nat (n - 1)) placed else None))"
proof -
  obtain numbers across down where
    run: "fold (assign placed grid) (numbered_cells grid) (1, Map.empty, Map.empty, Map.empty)
           = (1 + int (length (numbered_cells grid)), numbers, across, down)"
    and nu: "\<And>k. numbers k =
        (if 1 \<le> k \<and> k < 1 + int (length (numbered_cells grid))
         then Some (numbered_cells grid ! nat (k - 1)) else None)"
    and ac: "\<And>k. across k =
        (if 1 \<le> k \<and> k < 1 + int (length (numbered_cells grid)) \<and>
            across_start grid (numbered_cells grid ! nat (k - 1))
         then (case anchored_clue 0 (numbered_cells grid ! nat (k - 1)) placed of
                 None \<Rightarrow> None | Some s \<Rightarrow> Some s)
         else None)"
    and dn: "\<And>k. down k =
        (if 1 \<le> k \<and> k < 1 + int (length (numbered_cells grid)) \<and>
            down_start grid (numbered_cells grid ! nat (k - 1))
         then (case anchored_clue 1 (numbered_cells grid ! nat (k - 1)) placed of
                 None \<Rightarrow> None | Some s \<Rightarrow> Some s)
         else None)"
    using fold_assign [of placed grid "numbered_cells grid" 1 Map.empty Map.empty Map.empty]
    by blast
  have opt: "\<And>x :: string option. (case x of None \<Rightarrow> None | Some s \<Rightarrow> Some s) = x"
    by (simp split: option.splits)
  have lt: "\<And>k m :: int. (k < 1 + m) = (k \<le> m)" by auto
  have "number_state grid placed
       = Inr (1 + int (length (numbered_cells grid)), numbers, across, down)"
    using number_state_square [OF assms, of placed] run by simp
  moreover have "\<forall>n. numbers n =
        (if 1 \<le> n \<and> n \<le> int (length (numbered_cells grid))
         then Some (numbered_cells grid ! nat (n - 1)) else None)"
    using nu by (simp add: lt)
  moreover have "\<forall>n. across n =
        (if 1 \<le> n \<and> n \<le> int (length (numbered_cells grid)) \<and>
            across_start grid (numbered_cells grid ! nat (n - 1))
         then anchored_clue 0 (numbered_cells grid ! nat (n - 1)) placed else None)"
    using ac by (simp add: lt opt)
  moreover have "\<forall>n. down n =
        (if 1 \<le> n \<and> n \<le> int (length (numbered_cells grid)) \<and>
            down_start grid (numbered_cells grid ! nat (n - 1))
         then anchored_clue 1 (numbered_cells grid ! nat (n - 1)) placed else None)"
    using dn by (simp add: lt opt)
  ultimately show ?thesis by blast
qed

lemma set_scan_order: "set (scan_order grid) = {p. on_grid grid (fst p) (snd p)}"
proof -
  have "\<And>r. 0 \<le> r \<Longrightarrow> r < int (length grid) \<Longrightarrow> r \<in> int ` {0..<length grid}"
  proof -
    fix r :: int assume "0 \<le> r" "r < int (length grid)"
    then have "nat r \<in> {0..<length grid}" "r = int (nat r)" by auto
    then show "r \<in> int ` {0..<length grid}" by (rule_tac image_eqI)
  qed
  then show ?thesis
    by (auto simp: scan_order_def on_grid_def)
qed

lemma set_numbered_cells: "set (numbered_cells grid) = {p. numbered grid p}"
proof -
  have "numbered grid p \<Longrightarrow> on_grid grid (fst p) (snd p)" for p
    by (auto simp: numbered_def letter_at_def split: if_splits)
  then show ?thesis
    by (auto simp: numbered_cells_def set_scan_order)
qed

lemma sorted_product:
  assumes "sorted_wrt (<) xs" and "sorted_wrt (<) ys"
  shows "sorted_wrt row_major_less (List.product xs ys)"
  using assms(1)
proof (induction xs)
  case Nil
  show ?case by simp
next
  case (Cons x xs)
  have "sorted_wrt row_major_less (map (Pair x) ys)"
    using assms(2) by (simp add: sorted_wrt_map row_major_less_def)
  moreover have "sorted_wrt row_major_less (List.product xs ys)"
    using Cons by simp
  moreover have "\<forall>p \<in> set (map (Pair x) ys). \<forall>q \<in> set (List.product xs ys). row_major_less p q"
    using Cons.prems by (auto simp: row_major_less_def)
  ultimately show ?case by (simp add: sorted_wrt_append)
qed

lemma sorted_numbered_cells: "sorted_wrt row_major_less (numbered_cells grid)"
proof -
  have "sorted_wrt (\<lambda>x y. int x < int y) [0..<length grid]"
    by (rule sorted_wrt_mono_rel [OF _ sorted_wrt_upt]) simp
  then have ints: "sorted_wrt (<) (map int [0..<length grid])"
    by (simp only: sorted_wrt_map)
  have "sorted_wrt row_major_less (scan_order grid)"
    unfolding scan_order_def using ints ints by (rule sorted_product)
  then show ?thesis
    unfolding numbered_cells_def by (rule sorted_wrt_filter)
qed

lemma ran_numbers:
  assumes "\<forall>n. numbers n =
        (if 1 \<le> n \<and> n \<le> int (length cells) then Some (cells ! nat (n - 1)) else None)"
  shows "ran numbers = set cells"
proof (rule set_eqI)
  fix p
  show "(p \<in> ran numbers) = (p \<in> set cells)"
  proof
    assume "p \<in> ran numbers"
    then obtain n where n: "numbers n = Some p" by (auto simp: ran_def)
    then have rng: "1 \<le> n \<and> n \<le> int (length cells)" and p: "p = cells ! nat (n - 1)"
      using assms by (auto split: if_splits)
    have "nat (n - 1) < length cells" using rng by linarith
    then show "p \<in> set cells" unfolding p by (rule nth_mem)
  next
    assume "p \<in> set cells"
    then obtain i where i: "i < length cells" "cells ! i = p" by (auto simp: in_set_conv_nth)
    have "numbers (int i + 1) = Some (cells ! nat (int i + 1 - 1))"
      using assms i(1) by auto
    then have "numbers (int i + 1) = Some p" using i(2) by simp
    then show "p \<in> ran numbers" by (auto simp: ran_def)
  qed
qed

text \<open>
  C5. On a square grid \<open>number_grid\<close> raises nothing. The cells bound to the numbers
  1, 2, ... are, in row-major order, exactly the non-empty cells that begin an across
  answer (left neighbour off the grid or empty, right neighbour on the grid and not
  empty) or a down answer (the same with the cells above and below). The across map
  binds the number of a cell that begins an across answer to the clue of the first
  placed word that is horizontal and anchored there (and binds nothing when there is no
  such word or the cell begins no across answer); the down map does the same with the
  first vertical word.
\<close>

theorem number_grid_starts_and_clues:
  assumes "square grid"
  shows "\<exists>numbers across down.
     number_grid grid placed = Inr (numbers, across, down) \<and>
     (\<forall>n. numbers n =
        (if 1 \<le> n \<and> n \<le> int (length (numbered_cells grid))
         then Some (numbered_cells grid ! nat (n - 1)) else None)) \<and>
     ran numbers = {p. numbered grid p} \<and>
     (\<forall>n. across n =
        (if 1 \<le> n \<and> n \<le> int (length (numbered_cells grid)) \<and>
            across_start grid (numbered_cells grid ! nat (n - 1))
         then anchored_clue 0 (numbered_cells grid ! nat (n - 1)) placed else None)) \<and>
     (\<forall>n. down n =
        (if 1 \<le> n \<and> n \<le> int (length (numbered_cells grid)) \<and>
            down_start grid (numbered_cells grid ! nat (n - 1))
         then anchored_clue 1 (numbered_cells grid ! nat (n - 1)) placed else None))"
proof -
  obtain numbers across down where
    st: "number_state grid placed
          = Inr (1 + int (length (numbered_cells grid)), numbers, across, down)"
    and nu: "\<forall>n. numbers n =
        (if 1 \<le> n \<and> n \<le> int (length (numbered_cells grid))
         then Some (numbered_cells grid ! nat (n - 1)) else None)"
    and ac: "\<forall>n. across n =
        (if 1 \<le> n \<and> n \<le> int (length (numbered_cells grid)) \<and>
            across_start grid (numbered_cells grid ! nat (n - 1))
         then anchored_clue 0 (numbered_cells grid ! nat (n - 1)) placed else None)"
    and dn: "\<forall>n. down n =
        (if 1 \<le> n \<and> n \<le> int (length (numbered_cells grid)) \<and>
            down_start grid (numbered_cells grid ! nat (n - 1))
         then anchored_clue 1 (numbered_cells grid ! nat (n - 1)) placed else None)"
    using number_state_result [OF assms, of placed] by blast
  have ng: "number_grid grid placed = Inr (numbers, across, down)"
    by (simp add: number_grid_def st)
  have rn: "ran numbers = {p. numbered grid p}"
    using ran_numbers [OF nu] by (simp add: set_numbered_cells)
  show ?thesis using ng nu rn ac dn by blast
qed

lemma demo_final_square:
  "square [[None, Some CHR ''T'', None],
           [Some CHR ''C'', Some CHR ''A'', Some CHR ''T''],
           [None, Some CHR ''N'', None]]"
  by (simp add: square_def)

lemma demo_numbered_cells:
  "numbered_cells [[None, Some CHR ''T'', None],
                   [Some CHR ''C'', Some CHR ''A'', Some CHR ''T''],
                   [None, Some CHR ''N'', None]] = [(0, 1), (1, 0)]"
  by (simp add: numbered_cells_def scan_order_def numbered_def across_start_def down_start_def
      letter_at_def on_grid_def upt_rec)

theorem number_grid_starts_and_clues_witness:
  "square [[None, Some CHR ''T'', None],
           [Some CHR ''C'', Some CHR ''A'', Some CHR ''T''],
           [None, Some CHR ''N'', None]] \<and>
   (\<exists>numbers across down.
      number_grid [[None, Some CHR ''T'', None],
                   [Some CHR ''C'', Some CHR ''A'', Some CHR ''T''],
                   [None, Some CHR ''N'', None]]
        [\<lparr>entry = \<lparr>word = ''CAT'', clue = ''pet''\<rparr>, row = 1, col = 0, direction = 0\<rparr>,
         \<lparr>entry = \<lparr>word = ''TAN'', clue = ''colour''\<rparr>, row = 0, col = 1, direction = 1\<rparr>]
        = Inr (numbers, across, down) \<and>
      numbers 1 = Some (0, 1) \<and> numbers 2 = Some (1, 0) \<and> numbers 3 = None \<and>
      across 1 = None \<and> across 2 = Some ''pet'' \<and>
      down 1 = Some ''colour'' \<and> down 2 = None)"
proof -
  let ?g = "[[None, Some CHR ''T'', None],
           [Some CHR ''C'', Some CHR ''A'', Some CHR ''T''],
           [None, Some CHR ''N'', None]]"
  let ?pl = "[\<lparr>entry = \<lparr>word = ''CAT'', clue = ''pet''\<rparr>, row = 1, col = 0, direction = 0\<rparr>,
         \<lparr>entry = \<lparr>word = ''TAN'', clue = ''colour''\<rparr>, row = 0, col = 1, direction = 1\<rparr>]"
  obtain numbers across down where
    ng: "number_grid ?g ?pl = Inr (numbers, across, down)"
    and nu: "\<And>n. numbers n =
        (if 1 \<le> n \<and> n \<le> int (length (numbered_cells ?g))
         then Some (numbered_cells ?g ! nat (n - 1)) else None)"
    and ac: "\<And>n. across n =
        (if 1 \<le> n \<and> n \<le> int (length (numbered_cells ?g)) \<and>
            across_start ?g (numbered_cells ?g ! nat (n - 1))
         then anchored_clue 0 (numbered_cells ?g ! nat (n - 1)) ?pl else None)"
    and dn: "\<And>n. down n =
        (if 1 \<le> n \<and> n \<le> int (length (numbered_cells ?g)) \<and>
            down_start ?g (numbered_cells ?g ! nat (n - 1))
         then anchored_clue 1 (numbered_cells ?g ! nat (n - 1)) ?pl else None)"
    using number_grid_starts_and_clues [OF demo_final_square, of ?pl] by blast
  have "numbers 1 = Some (0, 1)" "numbers 2 = Some (1, 0)" "numbers 3 = None"
    by (simp_all add: nu demo_numbered_cells)
  moreover have "across 1 = None" "across 2 = Some ''pet''"
    by (simp_all add: ac demo_numbered_cells across_start_def letter_at_def on_grid_def
        anchored_clue_def)
  moreover have "down 1 = Some ''colour''" "down 2 = None"
    by (simp_all add: dn demo_numbered_cells down_start_def letter_at_def on_grid_def
        anchored_clue_def)
  ultimately show ?thesis using ng demo_final_square by blast
qed


lemma distinct_numbered_cells: "distinct (numbered_cells grid)"
proof -
  have "distinct (map int [0..<length grid])"
    by (simp add: distinct_map)
  then have "distinct (scan_order grid)"
    unfolding scan_order_def by (simp add: distinct_product)
  then show ?thesis
    unfolding numbered_cells_def by (rule distinct_filter)
qed

lemma card_numbered: "card {p. numbered grid p} = length (numbered_cells grid)"
  using distinct_card [OF distinct_numbered_cells, of grid]
  by (simp add: set_numbered_cells)

text \<open>
  C8. On a square grid the keys of the numbers map are exactly 1, ..., k, where k is
  the number of numbered cells: the counter starts at 1 and ends at k + 1, one step for
  each cell that begins an across answer, a down answer or both. The cells bound to
  increasing numbers are strictly increasing in row-major order, so no cell is bound
  twice.
\<close>

theorem numbering_sequential:
  assumes "square grid"
  shows "\<exists>n numbers across down.
     number_state grid placed = Inr (n, numbers, across, down) \<and>
     number_grid grid placed = Inr (numbers, across, down) \<and>
     n = 1 + int (card {p. numbered grid p}) \<and>
     dom numbers = {1..n - 1} \<and>
     (\<forall>a b p q. a < b \<and> numbers a = Some p \<and> numbers b = Some q \<longrightarrow> row_major_less p q)"
proof -
  let ?cells = "numbered_cells grid"
  obtain numbers across down where
    st: "number_state grid placed = Inr (1 + int (length ?cells), numbers, across, down)"
    and nu: "\<And>n. numbers n =
        (if 1 \<le> n \<and> n \<le> int (length ?cells) then Some (?cells ! nat (n - 1)) else None)"
    using number_state_result [OF assms, of placed] by blast
  have ng: "number_grid grid placed = Inr (numbers, across, down)"
    by (simp add: number_grid_def st)
  have cnt: "1 + int (length ?cells) = 1 + int (card {p. numbered grid p})"
    by (simp add: card_numbered)
  have dm: "dom numbers = {1..1 + int (length ?cells) - 1}"
    by (auto simp: dom_def nu split: if_splits)
  have ord: "\<forall>a b p q. a < b \<and> numbers a = Some p \<and> numbers b = Some q \<longrightarrow> row_major_less p q"
  proof (intro allI impI, elim conjE)
    fix a b :: int and p q
    assume ab: "a < b" and pa: "numbers a = Some p" and qb: "numbers b = Some q"
    have a: "1 \<le> a" "a \<le> int (length ?cells)" and p: "p = ?cells ! nat (a - 1)"
      using pa nu [of a] by (auto split: if_splits)
    have b: "1 \<le> b" "b \<le> int (length ?cells)" and q: "q = ?cells ! nat (b - 1)"
      using qb nu [of b] by (auto split: if_splits)
    have "nat (a - 1) < nat (b - 1)" "nat (b - 1) < length ?cells"
      using ab a b by linarith+
    with sorted_numbered_cells [of grid]
    show "row_major_less p q" unfolding p q by (rule sorted_wrt_nth_less)
  qed
  show ?thesis using st ng cnt dm ord by (metis (no_types))
qed

theorem numbering_sequential_witness:
  "square [[None, Some CHR ''T'', None],
           [Some CHR ''C'', Some CHR ''A'', Some CHR ''T''],
           [None, Some CHR ''N'', None]] \<and>
   (\<exists>numbers across down.
      number_state [[None, Some CHR ''T'', None],
                    [Some CHR ''C'', Some CHR ''A'', Some CHR ''T''],
                    [None, Some CHR ''N'', None]]
        [\<lparr>entry = \<lparr>word = ''CAT'', clue = ''pet''\<rparr>, row = 1, col = 0, direction = 0\<rparr>,
         \<lparr>entry = \<lparr>word = ''TAN'', clue = ''colour''\<rparr>, row = 0, col = 1, direction = 1\<rparr>]
        = Inr (3, numbers, across, down) \<and>
      dom numbers = {1..2})"
proof -
  let ?g = "[[None, Some CHR ''T'', None],
           [Some CHR ''C'', Some CHR ''A'', Some CHR ''T''],
           [None, Some CHR ''N'', None]]"
  let ?pl = "[\<lparr>entry = \<lparr>word = ''CAT'', clue = ''pet''\<rparr>, row = 1, col = 0, direction = 0\<rparr>,
         \<lparr>entry = \<lparr>word = ''TAN'', clue = ''colour''\<rparr>, row = 0, col = 1, direction = 1\<rparr>]"
  have k: "card {p. numbered ?g p} = 2"
    using card_numbered [of ?g] by (simp add: demo_numbered_cells)
  obtain n numbers across down where
    st: "number_state ?g ?pl = Inr (n, numbers, across, down)"
    and n: "n = 1 + int (card {p. numbered ?g p})"
    and dm: "dom numbers = {1..n - 1}"
    using numbering_sequential [OF demo_final_square, of ?pl] by blast
  have "n = 3" using n k by simp
  then show ?thesis using st dm demo_final_square by auto
qed

end
